theory Spec2Isabelle
  imports
    Complex_Main
    "HOL-Library.Word"
    "HOL-Library.Log_Nat"
    "HOL-Library.List_Lexorder"
    "HOL-Library.Product_Lexorder"
    "HOL-Library.Multiset"
begin

unbundle bit_operations_syntax

section \<open>The standalone partitioned key-value engine (arch/api/standalone/eggroll.py)\<close>

text \<open>
  A shallow embedding of the standalone engine. Raw keys and values are byte strings;
  they are compared the way Python compares \<^verbatim>\<open>bytes\<close> and the way the
  storage sorts its keys: lexicographically, byte by byte, a proper prefix first.
\<close>

type_synonym byte = "8 word"
type_synonym bytes = "byte list"

text \<open>The exceptions the modelled code paths raise.\<close>

datatype error =
    ValueError
  | OverflowError
  | PicklingError
  | UnpicklingError
  | AttributeError
  | UnicodeDecodeError
  | KeyError
  | UnboundLocalError
  | TypeError
  | BadValsizeError

text \<open>
  An operation either returns, raises, or does not return at all: \<open>None\<close> is a call
  that never returns, \<open>Some (Inl e)\<close> raises \<open>e\<close>, \<open>Some (Inr x)\<close> returns \<open>x\<close>.
\<close>

type_synonym 'a res = "(error + 'a) option"

definition ret :: "'a \<Rightarrow> 'a res" where
  "ret x = Some (Inr x)"

definition raise :: "error \<Rightarrow> 'a res" where
  "raise e = Some (Inl e)"

definition bnd :: "'a res \<Rightarrow> ('a \<Rightarrow> 'b res) \<Rightarrow> 'b res" where
  "bnd m f = (case m of None \<Rightarrow> None | Some (Inl e) \<Rightarrow> Some (Inl e) | Some (Inr x) \<Rightarrow> f x)"

subsection \<open>Python floats, as far as the partition hasher uses them\<close>

text \<open>
  A Python float is an IEEE 754 binary64 number. The hasher only produces values that are
  zero, at least one, or plus infinity, so a float is modelled as a rational number or
  \<open>Inf\<close>; every arithmetic result is rounded to 53 significant bits, ties to even.
\<close>

datatype pyfloat = Finite rat | Inf

definition round_half_even :: "rat \<Rightarrow> int" where
  "round_half_even q =
     (let f = \<lfloor>q\<rfloor>; d = q - of_int f
      in if d < 1 / 2 then f
         else if 1 / 2 < d then f + 1
         else if even f then f else f + 1)"

text \<open>
  Rounding a rational \<open>q \<ge> 1\<close> to binary64: with \<open>2 ^ e \<le> q < 2 ^ (e + 1)\<close> the
  result is the multiple of \<open>2 ^ (e - 52)\<close> nearest to \<open>q\<close>.
\<close>

definition round53 :: "rat \<Rightarrow> rat" where
  "round53 q =
     (let e = bitlen \<lfloor>q\<rfloor> - 1
      in if e \<le> 52
         then of_int (round_half_even (q * 2 ^ nat (52 - e))) / 2 ^ nat (52 - e)
         else of_int (round_half_even (q / 2 ^ nat (e - 52))) * 2 ^ nat (e - 52))"

text \<open>\<^verbatim>\<open>float(n)\<close> for an integer: raises OverflowError when the rounded value is out of range.\<close>

definition float_of_int :: "int \<Rightarrow> error + rat" where
  "float_of_int n =
     (if n \<le> 0 then Inr (- round53 (of_int (- n)))
      else let r = round53 (of_int n) in if r < 2 ^ 1024 then Inr r else Inl OverflowError)"

text \<open>Float division and multiplication of positive finite floats; a product can overflow to infinity.\<close>

definition float_div :: "rat \<Rightarrow> rat \<Rightarrow> rat" where
  "float_div a b = round53 (a / b)"

definition float_mul :: "rat \<Rightarrow> rat \<Rightarrow> pyfloat" where
  "float_mul a b = (let r = round53 (a * b) in if r < 2 ^ 1024 then Finite r else Inf)"

text \<open>\<^verbatim>\<open>int(x)\<close> truncates towards zero.\<close>

definition int_of_rat :: "rat \<Rightarrow> int" where
  "int_of_rat q = (if 0 \<le> q then \<lfloor>q\<rfloor> else \<lceil>q\<rceil>)"

subsection \<open>The partition hasher\<close>

text \<open>
  \<^verbatim>\<open>
  def _hash_key_to_partition(key, partitions):
      _key = hashlib.sha1(key).digest()
      if isinstance(_key, bytes):
          _key = int.from_bytes(_key, byteorder='little', signed=False)
      if partitions < 1:
          raise ValueError('partitions must be a positive number')
      b, j = -1, 0
      while j < partitions:
          b = int(j)
          _key = ((_key * 2862933555777941757) + 1) & 0xffffffffffffffff
          j = float(b + 1) * (float(1 << 31) / float((_key >> 33) + 1))
      return int(b)
  \<close>
  SHA-1 is the standard library's; it is a parameter \<open>sha1\<close> of the model.
\<close>

fun int_from_bytes_little :: "bytes \<Rightarrow> int" where
  "int_from_bytes_little [] = 0"
| "int_from_bytes_little (b # bs) = uint b + 256 * int_from_bytes_little bs"

definition next_key :: "int \<Rightarrow> int" where
  "next_key k = (k * 2862933555777941757 + 1) AND 0xffffffffffffffff"

text \<open>The right-hand side of the assignment to \<open>j\<close>, for the new \<open>b\<close> and the new key.\<close>

definition next_j :: "int \<Rightarrow> int \<Rightarrow> pyfloat res" where
  "next_j b k =
     (case float_of_int (b + 1) of
        Inl e \<Rightarrow> raise e
      | Inr fb \<Rightarrow> ret (float_mul fb (float_div (2 ^ 31) (of_int (drop_bit 33 k + 1)))))"

partial_function (option) jump_loop :: "int \<Rightarrow> int \<Rightarrow> pyfloat \<Rightarrow> int \<Rightarrow> (error + int) option" where
  "jump_loop partitions b j k =
     (case j of
        Inf \<Rightarrow> Some (Inr b)
      | Finite q \<Rightarrow>
          if q < of_int partitions then
            (let b' = int_of_rat q; k' = next_key k
             in case next_j b' k' of
                  None \<Rightarrow> None
                | Some (Inl e) \<Rightarrow> Some (Inl e)
                | Some (Inr j') \<Rightarrow> jump_loop partitions b' j' k')
          else Some (Inr b))"

definition hash_key_to_partition :: "(bytes \<Rightarrow> bytes) \<Rightarrow> bytes \<Rightarrow> int \<Rightarrow> int res" where
  "hash_key_to_partition sha1 key partitions =
     (let k = int_from_bytes_little (sha1 key)
      in if partitions < 1 then raise ValueError
         else jump_loop partitions (- 1) (Finite 0) k)"

subsection \<open>Python values and the library functions the engine calls\<close>

text \<open>
  Keys, values and the items of iterables are Python objects. The pickle functions, SHA-1,
  the string helpers of \<^verbatim>\<open>arch.api.utils.core\<close>, \<^verbatim>\<open>uuid.uuid1\<close> and numpy's random
  generator are library code outside the repository: they are parameters of the model,
  collected in the record \<open>libs\<close>. A library call that raises is \<open>None\<close>.
  \<open>random_sample L seed i\<close> is the \<open>i\<close>-th number that \<^verbatim>\<open>RandomState(seed).rand()\<close>
  returns; \<open>os_urandom L n\<close> is the seed the operating system supplies to the \<open>n\<close>-th
  generator that is created without a seed.
\<close>

datatype pyobj = PyNone | PyInt int | PyStr string | PyBytes bytes | PyTuple "pyobj list"

record libs =
  sha1_digest :: "bytes \<Rightarrow> bytes"
  pickle_dumps :: "pyobj \<Rightarrow> bytes option"
  pickle_loads :: "bytes \<Rightarrow> pyobj option"
  string_to_bytes :: "pyobj \<Rightarrow> bytes option"
  bytes_to_string :: "bytes \<Rightarrow> pyobj option"
  uuid1 :: "nat \<Rightarrow> string"
  random_sample :: "int \<Rightarrow> nat \<Rightarrow> rat"
  os_urandom :: "nat \<Rightarrow> int"

definition serialize :: "libs \<Rightarrow> pyobj \<Rightarrow> bytes res" where
  "serialize L obj = (case pickle_dumps L obj of None \<Rightarrow> raise PicklingError | Some b \<Rightarrow> ret b)"

definition deserialize :: "libs \<Rightarrow> bytes \<Rightarrow> pyobj res" where
  "deserialize L b = (case pickle_loads L b of None \<Rightarrow> raise UnpicklingError | Some obj \<Rightarrow> ret obj)"

subsection \<open>The storage\<close>

text \<open>
  One LMDB environment holds the entries of one partition, sorted by key; a cursor walks
  them in that order. It is modelled as the list of its entries. The environments are
  addressed by the components of their path below the data directory:
  type, namespace, name and partition index.
\<close>

type_synonym entry = "bytes \<times> bytes"
type_synonym db = "entry list"
type_synonym path = "string \<times> string \<times> string \<times> int"

fun db_put :: "bytes \<Rightarrow> bytes \<Rightarrow> db \<Rightarrow> db" where
  "db_put k v [] = [(k, v)]"
| "db_put k v ((k', v') # d) =
     (if k < k' then (k, v) # (k', v') # d
      else if k = k' then (k, v) # d
      else (k', v') # db_put k v d)"

definition db_get :: "bytes \<Rightarrow> db \<Rightarrow> bytes option" where
  "db_get k d = map_of d k"

text \<open>
  \<open>db_put\<close> and \<open>db_get\<close> are the insertion and the lookup in the sorted entries. The calls
  the code makes are \<^verbatim>\<open>txn.put(key, value)\<close> and \<^verbatim>\<open>txn.get(key)\<close> of the lmdb library, which
  check the key first: LMDB stores keys of 1 to 511 bytes (its default maximum key size);
  \<^verbatim>\<open>put\<close> raises \<^verbatim>\<open>BadValsizeError\<close> for any other key, \<^verbatim>\<open>get\<close> raises it for the empty key
  and finds nothing for a key that is too long. \<^verbatim>\<open>put\<close> returns True (it overwrites).
  The limit on the size of a value, 4 GiB, is left out.
\<close>

definition max_key_size :: nat where
  "max_key_size = 511"

definition valid_key :: "bytes \<Rightarrow> bool" where
  "valid_key k \<longleftrightarrow> 0 < length k \<and> length k \<le> max_key_size"

definition txn_put :: "bytes \<Rightarrow> bytes \<Rightarrow> db \<Rightarrow> db res" where
  "txn_put k v d = (if valid_key k then ret (db_put k v d) else raise BadValsizeError)"

definition txn_get :: "bytes \<Rightarrow> db \<Rightarrow> bytes option res" where
  "txn_get k d = (if k = [] then raise BadValsizeError else ret (db_get k d))"

text \<open>
  The engine: the job id, the environments on disk, and how often \<^verbatim>\<open>uuid.uuid1()\<close> and an
  unseeded random generator have been asked for so far.
\<close>

record standalone =
  job_id :: string
  fs :: "path \<Rightarrow> db"
  uuid_calls :: nat
  urandom_calls :: nat

record dtable =
  t_type :: string
  t_namespace :: string
  t_name :: string
  t_partitions :: int

text \<open>Modelled from the spec: the values of \<^verbatim>\<open>StoreType\<close> (arch.api), the tier tags of the on-disk layout.\<close>

definition StoreType_LMDB :: string where
  "StoreType_LMDB = ''LMDB''"

definition StoreType_IN_MEMORY :: string where
  "StoreType_IN_MEMORY = ''IN_MEMORY''"

text \<open>\<^verbatim>\<open>self.meta_table = _DTable('__META__', '__META__', 'fragments', 10)\<close>\<close>

definition meta_table :: dtable where
  "meta_table = \<lparr>t_type = ''__META__'', t_namespace = ''__META__'', t_name = ''fragments'', t_partitions = 10\<rparr>"

definition env_for_partition :: "dtable \<Rightarrow> int \<Rightarrow> path" where
  "env_for_partition T p = (t_type T, t_namespace T, t_name T, p)"

definition update_env :: "path \<Rightarrow> db \<Rightarrow> standalone \<Rightarrow> standalone" where
  "update_env e d s = s\<lparr>fs := (fs s)(e := d)\<rparr>"

text \<open>\<^verbatim>\<open>range(n)\<close>\<close>

definition py_range :: "int \<Rightarrow> int list" where
  "py_range n = map int [0..<nat n]"

definition new_uuid :: "libs \<Rightarrow> standalone \<Rightarrow> string \<times> standalone" where
  "new_uuid L s = (uuid1 L (uuid_calls s), s\<lparr>uuid_calls := Suc (uuid_calls s)\<rparr>)"

subsection \<open>Point operations of a table\<close>

text \<open>
  \<^verbatim>\<open>kv_to_bytes\<close> has three uses: with a key and a value, with a key, with a value.
\<close>

definition to_bytes :: "libs \<Rightarrow> bool \<Rightarrow> pyobj \<Rightarrow> bytes res" where
  "to_bytes L use_serialize x =
     (if use_serialize then serialize L x
      else (case string_to_bytes L x of None \<Rightarrow> raise AttributeError | Some b \<Rightarrow> ret b))"

definition kv_to_bytes :: "libs \<Rightarrow> bool \<Rightarrow> pyobj \<Rightarrow> pyobj \<Rightarrow> (bytes \<times> bytes) res" where
  "kv_to_bytes L use_serialize k v =
     bnd (to_bytes L use_serialize k) (\<lambda>k_bytes.
     bnd (to_bytes L use_serialize v) (\<lambda>v_bytes. ret (k_bytes, v_bytes)))"

text \<open>What \<^verbatim>\<open>get\<close>, \<^verbatim>\<open>delete\<close> and \<^verbatim>\<open>put_if_absent\<close> return for a stored value.\<close>

definition from_bytes :: "libs \<Rightarrow> bool \<Rightarrow> bytes \<Rightarrow> pyobj res" where
  "from_bytes L use_serialize b = (if use_serialize then deserialize L b else ret (PyBytes b))"

definition put :: "libs \<Rightarrow> dtable \<Rightarrow> pyobj \<Rightarrow> pyobj \<Rightarrow> bool \<Rightarrow> standalone \<Rightarrow> (bool \<times> standalone) res" where
  "put L T k v use_serialize s =
     bnd (kv_to_bytes L use_serialize k v) (\<lambda>(k_bytes, v_bytes).
     bnd (hash_key_to_partition (sha1_digest L) k_bytes (t_partitions T)) (\<lambda>p.
     let env = env_for_partition T p
     in bnd (txn_put k_bytes v_bytes (fs s env)) (\<lambda>d. ret (True, update_env env d s))))"

definition get :: "libs \<Rightarrow> dtable \<Rightarrow> pyobj \<Rightarrow> bool \<Rightarrow> standalone \<Rightarrow> pyobj res" where
  "get L T k use_serialize s =
     bnd (to_bytes L use_serialize k) (\<lambda>k_bytes.
     bnd (hash_key_to_partition (sha1_digest L) k_bytes (t_partitions T)) (\<lambda>p.
     bnd (txn_get k_bytes (fs s (env_for_partition T p))) (\<lambda>old_value_bytes.
     case old_value_bytes of
       None \<Rightarrow> ret PyNone
     | Some b \<Rightarrow> from_bytes L use_serialize b)))"

definition put_if_absent :: "libs \<Rightarrow> dtable \<Rightarrow> pyobj \<Rightarrow> pyobj \<Rightarrow> bool \<Rightarrow> standalone \<Rightarrow> (pyobj \<times> standalone) res" where
  "put_if_absent L T k v use_serialize s =
     bnd (to_bytes L use_serialize k) (\<lambda>k_bytes.
     bnd (hash_key_to_partition (sha1_digest L) k_bytes (t_partitions T)) (\<lambda>p.
     let env = env_for_partition T p
     in bnd (txn_get k_bytes (fs s env)) (\<lambda>old_value_bytes.
        case old_value_bytes of
          None \<Rightarrow>
            bnd (to_bytes L use_serialize v) (\<lambda>v_bytes.
            bnd (txn_put k_bytes v_bytes (fs s env)) (\<lambda>d.
            ret (PyNone, update_env env d s)))
        | Some b \<Rightarrow>
            bnd (from_bytes L use_serialize b) (\<lambda>old. ret (old, s)))))"

definition count_entries :: "dtable \<Rightarrow> standalone \<Rightarrow> int" where
  "count_entries T s = (\<Sum>p\<leftarrow>py_range (t_partitions T). int (length (fs s (env_for_partition T p))))"

subsection \<open>The engine's table factory\<close>

text \<open>
  \<^verbatim>\<open>
  def table(self, name, namespace, partition=1, create_if_missing=True, error_if_exist=False, persistent=True):
      __type = StoreType.LMDB.value if persistent else StoreType.IN_MEMORY.value
      _table_key = ".".join([__type, namespace, name])
      self.meta_table.put_if_absent(_table_key, partition)
      partition = self.meta_table.get(_table_key)
      return _DTable(__type, namespace, name, partition)
  \<close>
  The partition count of a table is an integer in the model; a registry value that is
  not an integer, which Python would only reject when the table is used, raises TypeError here.
\<close>

definition table_key :: "string \<Rightarrow> string \<Rightarrow> string \<Rightarrow> string" where
  "table_key ty namespace name = ty @ ''.'' @ namespace @ ''.'' @ name"

definition table :: "libs \<Rightarrow> string \<Rightarrow> string \<Rightarrow> int \<Rightarrow> bool \<Rightarrow> standalone \<Rightarrow> (dtable \<times> standalone) res" where
  "table L name namespace npartition persistent s =
     (let ty = (if persistent then StoreType_LMDB else StoreType_IN_MEMORY);
          key = PyStr (table_key ty namespace name)
      in bnd (put_if_absent L meta_table key (PyInt npartition) True s) (\<lambda>(_, s1).
         bnd (get L meta_table key True s1) (\<lambda>registered.
         case registered of
           PyInt n \<Rightarrow> ret (\<lparr>t_type = ty, t_namespace = namespace, t_name = name, t_partitions = n\<rparr>, s1)
         | _ \<Rightarrow> raise TypeError)))"

subsection \<open>Bulk ingest\<close>

text \<open>
  \<^verbatim>\<open>
  def put_all(self, kv_list: Iterable, use_serialize=True, chunk_size=100000):
      txn_map = {}
      _succ = True
      for p in range(self._partitions):
          env = self._get_env_for_partition(p, write=True)
          txn = env.begin(write=True)
          txn_map[p] = env, txn
      for k, v in kv_list:
          try:
              k_bytes, v_bytes = self.kv_to_bytes(k=k, v=v, use_serialize=use_serialize)
              p = _hash_key_to_partition(k_bytes, self._partitions)
              _succ = _succ and txn_map[p][1].put(k_bytes, v_bytes)
          except Exception as e:
              _succ = False
              break
      for p, (env, txn) in txn_map.items():
          txn.commit() if _succ else txn.abort()
  \<close>
  A write transaction works on a private copy of its environment, which a commit installs
  and an abort drops. The model also returns the calls made on the transactions, in order
  (of the puts, those that returned).

  The iterable is modelled by what it does when iterated: it yields a list of items and
  then either stops or raises. The loop header \<^verbatim>\<open>for k, v in kv_list\<close> asks the iterable for
  the next item and unpacks it into two; both happen outside the \<^verbatim>\<open>try\<close> block, so an
  exception of the iterable or of the unpacking leaves \<^verbatim>\<open>put_all\<close> at once, with the
  transactions neither committed nor aborted.
\<close>

type_synonym iterable = "pyobj list \<times> error option"

text \<open>
  \<^verbatim>\<open>k, v = item\<close>: a tuple of two items, a string of two characters and a bytes object of
  two bytes unpack; another length raises ValueError, an object that is not iterable TypeError.
\<close>

fun unpack_pair :: "pyobj \<Rightarrow> (pyobj \<times> pyobj) res" where
  "unpack_pair (PyTuple [k, v]) = ret (k, v)"
| "unpack_pair (PyTuple _) = raise ValueError"
| "unpack_pair (PyStr [a, b]) = ret (PyStr [a], PyStr [b])"
| "unpack_pair (PyStr _) = raise ValueError"
| "unpack_pair (PyBytes [a, b]) = ret (PyInt (uint a), PyInt (uint b))"
| "unpack_pair (PyBytes _) = raise ValueError"
| "unpack_pair (PyInt _) = raise TypeError"
| "unpack_pair PyNone = raise TypeError"

datatype txn_event = Begin int | Put int bytes bytes | Commit int | Abort int

text \<open>
  The body of the \<^verbatim>\<open>try\<close> block for one pair: the new value of \<^verbatim>\<open>_succ\<close>, the transactions
  and the calls so far. \<^verbatim>\<open>_succ and txn.put(...)\<close> does not call \<^verbatim>\<open>put\<close> when \<^verbatim>\<open>_succ\<close> is False.
\<close>

definition try_put ::
  "libs \<Rightarrow> dtable \<Rightarrow> bool \<Rightarrow> pyobj \<Rightarrow> pyobj \<Rightarrow> bool \<Rightarrow> (int \<rightharpoonup> db) \<Rightarrow> txn_event list
     \<Rightarrow> (bool \<times> (int \<rightharpoonup> db) \<times> txn_event list) res" where
  "try_put L T use_serialize k v succ txn_map events =
     bnd (kv_to_bytes L use_serialize k v) (\<lambda>(k_bytes, v_bytes).
     bnd (hash_key_to_partition (sha1_digest L) k_bytes (t_partitions T)) (\<lambda>p.
     if succ then
       (case txn_map p of
          None \<Rightarrow> raise KeyError
        | Some d \<Rightarrow>
            bnd (txn_put k_bytes v_bytes d) (\<lambda>d'.
            ret (True, txn_map(p \<mapsto> d'), events @ [Put p k_bytes v_bytes])))
     else ret (False, txn_map, events)))"

text \<open>
  The loop. Its result is \<open>Inl e\<close> when the loop header raised \<open>e\<close>, and \<open>Inr succ\<close> when the loop
  ended, by exhaustion or by the \<^verbatim>\<open>break\<close> of the \<^verbatim>\<open>except\<close> clause.
\<close>

fun put_all_loop ::
  "libs \<Rightarrow> dtable \<Rightarrow> bool \<Rightarrow> pyobj list \<Rightarrow> error option \<Rightarrow> bool \<Rightarrow> (int \<rightharpoonup> db) \<Rightarrow> txn_event list
     \<Rightarrow> ((error + bool) \<times> (int \<rightharpoonup> db) \<times> txn_event list) option" where
  "put_all_loop L T use_serialize [] stop succ txn_map events =
     (case stop of
        None \<Rightarrow> Some (Inr succ, txn_map, events)
      | Some e \<Rightarrow> Some (Inl e, txn_map, events))"
| "put_all_loop L T use_serialize (item # items) stop succ txn_map events =
     (case unpack_pair item of
        None \<Rightarrow> None
      | Some (Inl e) \<Rightarrow> Some (Inl e, txn_map, events)
      | Some (Inr (k, v)) \<Rightarrow>
          (case try_put L T use_serialize k v succ txn_map events of
             None \<Rightarrow> None
           | Some (Inl e) \<Rightarrow> Some (Inr False, txn_map, events)
           | Some (Inr (succ', txn_map', events')) \<Rightarrow>
               put_all_loop L T use_serialize items stop succ' txn_map' events'))"

fun begin_all :: "dtable \<Rightarrow> standalone \<Rightarrow> int list \<Rightarrow> (int \<rightharpoonup> db)" where
  "begin_all T s [] = Map.empty"
| "begin_all T s (p # ps) = (begin_all T s ps)(p \<mapsto> fs s (env_for_partition T p))"

fun commit_all :: "dtable \<Rightarrow> (int \<rightharpoonup> db) \<Rightarrow> int list \<Rightarrow> standalone \<Rightarrow> standalone" where
  "commit_all T txn_map [] s = s"
| "commit_all T txn_map (p # ps) s =
     commit_all T txn_map ps
       (case txn_map p of None \<Rightarrow> s | Some d \<Rightarrow> update_env (env_for_partition T p) d s)"

text \<open>
  \<open>put_all\<close> gives the calls made on the transactions and how it ends: \<open>Inl e\<close> when it raises
  \<open>e\<close>, \<open>Inr s'\<close> when it returns with the engine in state \<open>s'\<close>.
\<close>

definition put_all ::
  "libs \<Rightarrow> dtable \<Rightarrow> iterable \<Rightarrow> bool \<Rightarrow> standalone \<Rightarrow> (txn_event list \<times> (error + standalone)) option" where
  "put_all L T kv_list use_serialize s =
     (let ps = py_range (t_partitions T);
          txn_map = begin_all T s ps
      in case put_all_loop L T use_serialize (fst kv_list) (snd kv_list) True txn_map (map Begin ps) of
           None \<Rightarrow> None
         | Some (Inl e, txn_map', events) \<Rightarrow> Some (events, Inl e)
         | Some (Inr succ, txn_map', events) \<Rightarrow>
             if succ then Some (events @ map Commit ps, Inr (commit_all T txn_map' ps s))
             else Some (events @ map Abort ps, Inr s))"

text \<open>A pair raises when the body of the try block raises for it.\<close>

definition entry_raises :: "libs \<Rightarrow> dtable \<Rightarrow> bool \<Rightarrow> pyobj \<times> pyobj \<Rightarrow> bool" where
  "entry_raises L T use_serialize kv =
     (case bnd (kv_to_bytes L use_serialize (fst kv) (snd kv)) (\<lambda>(k_bytes, v_bytes).
           bnd (hash_key_to_partition (sha1_digest L) k_bytes (t_partitions T)) (\<lambda>p.
           txn_put k_bytes v_bytes [])) of
        Some (Inl e) \<Rightarrow> True
      | _ \<Rightarrow> False)"

subsection \<open>Collect: the merge of the sorted partition cursors\<close>

text \<open>
  \<^verbatim>\<open>
  def _merge(cursors, use_serialize=True):
      entries = []
      for _id, it in enumerate(cursors):
          if it.next():
              key, value = it.item()
              entries.append([key, value, _id, it])
          else:
              it.close()
      heapify(entries)
      while entries:
          key, value, _, it = entry = entries[0]
          if use_serialize:
              yield c_pickle.loads(key), c_pickle.loads(value)
          else:
              yield bytes_to_string(key), value
          if it.next():
              entry[0], entry[1] = it.item()
              heapreplace(entries, entry)
          else:
              _, _, _, it = heappop(entries)
              it.close()
  \<close>
  An entry of the heap is the list \<open>[key, value, _id, it]\<close>; Python compares such lists
  by key, then value, then \<open>_id\<close>, and the ids differ. A cursor is the list of the entries
  it still has to visit. The heap functions are the standard library's: the model keeps
  their contract, that the first element of the heap is its least, by keeping the heap sorted.
  The generator is modelled in two parts: \<open>merge_loop\<close> is the sequence of raw entries in the
  order they are yielded, \<open>yield_item\<close> is the decoding applied to each when it is consumed.
\<close>

type_synonym heap_entry = "(bytes \<times> bytes \<times> nat) \<times> db"

definition heapify :: "heap_entry list \<Rightarrow> heap_entry list" where
  "heapify entries = sort_key fst entries"

definition heapreplace :: "heap_entry list \<Rightarrow> heap_entry \<Rightarrow> heap_entry list" where
  "heapreplace entries e = insort_key fst e (tl entries)"

definition heappop :: "heap_entry list \<Rightarrow> heap_entry list" where
  "heappop entries = tl entries"

fun first_entries :: "nat \<Rightarrow> db list \<Rightarrow> heap_entry list" where
  "first_entries i [] = []"
| "first_entries i ([] # cursors) = first_entries (Suc i) cursors"
| "first_entries i (((key, value) # it) # cursors) = ((key, value, i), it) # first_entries (Suc i) cursors"

definition heap_size :: "heap_entry list \<Rightarrow> nat" where
  "heap_size entries = (\<Sum>e\<leftarrow>entries. Suc (length (snd e)))"

lemma heap_size_insort: "heap_size (insort_key fst e es) = Suc (length (snd e)) + heap_size es"
  by (induction es) (auto simp: heap_size_def)

function merge_loop :: "heap_entry list \<Rightarrow> entry list" where
  "merge_loop [] = []"
| "merge_loop (((key, value, i), it) # es) =
     (key, value) #
       (case it of
          (key', value') # it' \<Rightarrow> merge_loop (heapreplace (((key, value, i), it) # es) ((key', value', i), it'))
        | [] \<Rightarrow> merge_loop (heappop (((key, value, i), it) # es)))"
  by pat_completeness auto
termination merge_loop
  by (relation "measure heap_size")
    (auto simp: heapreplace_def heappop_def heap_size_insort, auto simp: heap_size_def)

definition merge_cursors :: "db list \<Rightarrow> entry list" where
  "merge_cursors cursors = merge_loop (heapify (first_entries 0 cursors))"

definition yield_item :: "libs \<Rightarrow> bool \<Rightarrow> entry \<Rightarrow> (pyobj \<times> pyobj) res" where
  "yield_item L use_serialize e =
     (if use_serialize then
        bnd (deserialize L (fst e)) (\<lambda>k. bnd (deserialize L (snd e)) (\<lambda>v. ret (k, v)))
      else
        (case bytes_to_string L (fst e) of
           None \<Rightarrow> raise UnicodeDecodeError
         | Some k \<Rightarrow> ret (k, PyBytes (snd e))))"

definition collect :: "dtable \<Rightarrow> standalone \<Rightarrow> entry list" where
  "collect T s = merge_cursors (map (\<lambda>p. fs s (env_for_partition T p)) (py_range (t_partitions T)))"

text \<open>
  The generator as an iterable: it yields the decoded entries as tuples, and raises at
  the first entry whose decoding raises (the decoding itself always returns or raises).
\<close>

fun generator_items :: "libs \<Rightarrow> bool \<Rightarrow> entry list \<Rightarrow> iterable" where
  "generator_items L use_serialize [] = ([], None)"
| "generator_items L use_serialize (e # es) =
     (case yield_item L use_serialize e of
        Some (Inr (k, v)) \<Rightarrow>
          (PyTuple [k, v] # fst (generator_items L use_serialize es), snd (generator_items L use_serialize es))
      | Some (Inl err) \<Rightarrow> ([], Some err)
      | None \<Rightarrow> ([], None))"

text \<open>
  The invariant of a table: every partition holds its entries in strictly increasing key
  order, which is what the storage guarantees, and holds only keys that the hasher sends
  to it, which is how every write of the engine places an entry.
\<close>

definition db_sorted :: "db \<Rightarrow> bool" where
  "db_sorted d \<longleftrightarrow> sorted_wrt (<) (map fst d)"

definition table_ok :: "libs \<Rightarrow> dtable \<Rightarrow> standalone \<Rightarrow> bool" where
  "table_ok L T s \<longleftrightarrow>
     (\<forall>p\<in>set (py_range (t_partitions T)).
        db_sorted (fs s (env_for_partition T p)) \<and>
        (\<forall>e\<in>set (fs s (env_for_partition T p)).
           hash_key_to_partition (sha1_digest L) (fst e) (t_partitions T) = Some (Inr p)))"

subsection \<open>take and first\<close>

text \<open>
  \<^verbatim>\<open>
  def take(self, n, keysOnly=False, use_serialize=True):
      if n <= 0:
          n = 1
      it = self.collect(use_serialize=use_serialize)
      rtn = list()
      i = 0
      for item in it:
          if keysOnly:
              rtn.append(item[0])
          else:
              rtn.append(item)
          i += 1
          if i == n:
              break
      return rtn

  def first(self, keysOnly=False, use_serialize=True):
      resp = self.take(1, keysOnly=keysOnly, use_serialize=use_serialize)
      if resp:
          return resp[0]
      else:
          return None
  \<close>
\<close>

fun take_loop :: "libs \<Rightarrow> bool \<Rightarrow> bool \<Rightarrow> int \<Rightarrow> int \<Rightarrow> pyobj list \<Rightarrow> entry list \<Rightarrow> pyobj list res" where
  "take_loop L use_serialize keysOnly n i rtn [] = ret rtn"
| "take_loop L use_serialize keysOnly n i rtn (e # it) =
     bnd (yield_item L use_serialize e) (\<lambda>(k, v).
       let rtn' = rtn @ [if keysOnly then k else PyTuple [k, v]];
           i' = i + 1
       in if i' = n then ret rtn' else take_loop L use_serialize keysOnly n i' rtn' it)"

definition take_n :: "libs \<Rightarrow> dtable \<Rightarrow> int \<Rightarrow> bool \<Rightarrow> bool \<Rightarrow> standalone \<Rightarrow> pyobj list res" where
  "take_n L T n keysOnly use_serialize s =
     (let n = (if n \<le> 0 then 1 else n)
      in take_loop L use_serialize keysOnly n 0 [] (collect T s))"

definition first :: "libs \<Rightarrow> dtable \<Rightarrow> bool \<Rightarrow> bool \<Rightarrow> standalone \<Rightarrow> pyobj res" where
  "first L T keysOnly use_serialize s =
     bnd (take_n L T 1 keysOnly use_serialize s) (\<lambda>resp.
     case resp of [] \<Rightarrow> ret PyNone | x # _ \<Rightarrow> ret x)"

subsection \<open>save_as\<close>

text \<open>
  \<^verbatim>\<open>
  def save_as(self, name, namespace, partition=None, use_serialize=True):
      if partition is None:
          partition = self._partitions
      dup = Standalone.get_instance().table(name, namespace, partition, persistent=True)
      dup.put_all(self.collect(use_serialize=use_serialize), use_serialize=use_serialize)
      return dup
  \<close>
  The cursors of \<open>collect\<close> read a snapshot taken when \<open>collect\<close> is called; the generator
  decodes an entry when \<open>put_all\<close> asks for it.
\<close>

definition save_as ::
  "libs \<Rightarrow> dtable \<Rightarrow> string \<Rightarrow> string \<Rightarrow> int option \<Rightarrow> bool \<Rightarrow> standalone \<Rightarrow> (dtable \<times> standalone) res" where
  "save_as L self name namespace npartition use_serialize s =
     (let n = (case npartition of None \<Rightarrow> t_partitions self | Some n \<Rightarrow> n)
      in bnd (table L name namespace n True s) (\<lambda>(dup, s1).
         case put_all L dup (generator_items L use_serialize (collect self s1)) use_serialize s1 of
           None \<Rightarrow> None
         | Some (_, Inl e) \<Rightarrow> raise e
         | Some (_, Inr s2) \<Rightarrow> ret (dup, s2)))"

subsection \<open>Operator kernels and their dispatch\<close>

text \<open>
  Every kernel reads its source environments and writes, in one write transaction, the
  environment of the derived table with the same partition index. The worker pool runs
  one task per partition; the model runs them in the order they are submitted. A task
  that raises leaves its transaction uncommitted and makes the operator raise.
\<close>

fun subtract_entries :: "db \<Rightarrow> entry list \<Rightarrow> db \<Rightarrow> db res" where
  "subtract_entries right [] dst = ret dst"
| "subtract_entries right ((k_bytes, left_v_bytes) # cursor) dst =
     bnd (txn_get k_bytes right) (\<lambda>right_v_bytes.
     case right_v_bytes of
       None \<Rightarrow> bnd (txn_put k_bytes left_v_bytes dst) (\<lambda>dst'. subtract_entries right cursor dst')
     | Some _ \<Rightarrow> subtract_entries right cursor dst)"

definition do_subtract_by_key :: "path \<Rightarrow> path \<Rightarrow> path \<Rightarrow> standalone \<Rightarrow> standalone res" where
  "do_subtract_by_key left_op right_op rtn s =
     bnd (subtract_entries (fs s right_op) (fs s left_op) (fs s rtn)) (\<lambda>dst.
     ret (update_env rtn dst s))"

fun union_left :: "libs \<Rightarrow> (pyobj \<Rightarrow> pyobj \<Rightarrow> pyobj) \<Rightarrow> db \<Rightarrow> entry list \<Rightarrow> db \<Rightarrow> db res" where
  "union_left L func right [] dst = ret dst"
| "union_left L func right ((k_bytes, left_v_bytes) # left_cursor) dst =
     bnd (txn_get k_bytes right) (\<lambda>right_v_bytes.
     case right_v_bytes of
       None \<Rightarrow>
         bnd (txn_put k_bytes left_v_bytes dst) (\<lambda>dst'. union_left L func right left_cursor dst')
     | Some right_v_bytes \<Rightarrow>
         bnd (deserialize L left_v_bytes) (\<lambda>left_v.
         bnd (deserialize L right_v_bytes) (\<lambda>right_v.
         bnd (serialize L (func left_v right_v)) (\<lambda>final_v_bytes.
         bnd (txn_put k_bytes final_v_bytes dst) (\<lambda>dst'. union_left L func right left_cursor dst')))))"

fun union_right :: "entry list \<Rightarrow> db \<Rightarrow> db res" where
  "union_right [] dst = ret dst"
| "union_right ((k_bytes, right_v_bytes) # right_cursor) dst =
     bnd (txn_get k_bytes dst) (\<lambda>final_v_bytes.
     case final_v_bytes of
       None \<Rightarrow> bnd (txn_put k_bytes right_v_bytes dst) (\<lambda>dst'. union_right right_cursor dst')
     | Some _ \<Rightarrow> union_right right_cursor dst)"

definition do_union ::
  "libs \<Rightarrow> (pyobj \<Rightarrow> pyobj \<Rightarrow> pyobj) \<Rightarrow> path \<Rightarrow> path \<Rightarrow> path \<Rightarrow> standalone \<Rightarrow> standalone res" where
  "do_union L func left_op right_op rtn s =
     bnd (union_left L func (fs s right_op) (fs s left_op) (fs s rtn)) (\<lambda>dst.
     bnd (union_right (fs s right_op) dst) (\<lambda>dst'.
     ret (update_env rtn dst' s)))"

text \<open>
  \<^verbatim>\<open>np.random.RandomState(seed)\<close> accepts an integer seed between 0 and \<open>2 ^ 32 - 1\<close>
  and raises ValueError for another integer; without a seed it seeds itself from the
  operating system.
\<close>

fun sample_entries :: "(nat \<Rightarrow> rat) \<Rightarrow> rat \<Rightarrow> nat \<Rightarrow> entry list \<Rightarrow> db \<Rightarrow> db res" where
  "sample_entries rand fraction i [] dst = ret dst"
| "sample_entries rand fraction i ((k, v) # cursor) dst =
     (if rand i < fraction then
        bnd (txn_put k v dst) (\<lambda>dst'. sample_entries rand fraction (Suc i) cursor dst')
      else sample_entries rand fraction (Suc i) cursor dst)"

definition do_sample :: "libs \<Rightarrow> rat \<Rightarrow> int option \<Rightarrow> path \<Rightarrow> path \<Rightarrow> standalone \<Rightarrow> standalone res" where
  "do_sample L fraction seed operand rtn s =
     (case seed of
        None \<Rightarrow>
          (let rand = random_sample L (os_urandom L (urandom_calls s));
               s' = s\<lparr>urandom_calls := Suc (urandom_calls s)\<rparr>
           in bnd (sample_entries rand fraction 0 (fs s operand) (fs s rtn)) (\<lambda>dst.
              ret (update_env rtn dst s')))
      | Some n \<Rightarrow>
          if n < 0 \<or> 2 ^ 32 \<le> n then raise ValueError
          else bnd (sample_entries (random_sample L n) fraction 0 (fs s operand) (fs s rtn)) (\<lambda>dst.
               ret (update_env rtn dst s)))"

fun run_tasks :: "(int \<Rightarrow> standalone \<Rightarrow> standalone res) \<Rightarrow> int list \<Rightarrow> standalone \<Rightarrow> standalone res" where
  "run_tasks task [] s = ret s"
| "run_tasks task (p # ps) s = bnd (task p s) (run_tasks task ps)"

text \<open>
  The common tail of the operators: a fresh function id, one task per partition of
  \<open>self\<close>, and the derived table \<open>(IN_MEMORY, job id, function id)\<close> registered with the
  partition count of \<open>self\<close>. With no partition the loop over the results never binds
  \<open>result\<close>, and reading it raises.
\<close>

definition derived_table ::
  "libs \<Rightarrow> dtable \<Rightarrow> (int \<Rightarrow> path \<Rightarrow> standalone \<Rightarrow> standalone res) \<Rightarrow> standalone \<Rightarrow> (dtable \<times> standalone) res" where
  "derived_table L self do_func s =
     (let (func_id, s1) = new_uuid L s
      in bnd (run_tasks (\<lambda>p. do_func p (StoreType_IN_MEMORY, job_id s1, func_id, p))
                (py_range (t_partitions self)) s1) (\<lambda>s2.
         if t_partitions self \<le> 0 then raise UnboundLocalError
         else table L func_id (job_id s2) (t_partitions self) False s2))"

text \<open>
  \<^verbatim>\<open>
  def sample(self, fraction, seed=None):
      results = self._submit_to_pool((fraction, seed), do_sample)
      for r in results:
          result = r.result()
      return Standalone.get_instance().table(result._name, result._namespace, self._partitions, persistent=False)
  \<close>
\<close>

definition sample :: "libs \<Rightarrow> dtable \<Rightarrow> rat \<Rightarrow> int option \<Rightarrow> standalone \<Rightarrow> (dtable \<times> standalone) res" where
  "sample L self fraction seed s =
     derived_table L self (\<lambda>p. do_sample L fraction seed (env_for_partition self p)) s"

text \<open>
  \<^verbatim>\<open>
  def union(self, other, func=lambda v1, v2 : v1):
      _job_id = Standalone.get_instance().job_id
      if other._partitions != self._partitions:
          if other.count() > self.count():
              return self.save_as(str(uuid.uuid1()), _job_id, partition=other._partitions).union(other, func)
          else:
              return self.union(other.save_as(str(uuid.uuid1()), _job_id, partition=self._partitions), func)
      ... one do_union task per partition ...
  \<close>
  The retry is a recursive call, and nothing in the code bounds the number of retries.
\<close>

partial_function (option) union ::
  "libs \<Rightarrow> dtable \<Rightarrow> dtable \<Rightarrow> (pyobj \<Rightarrow> pyobj \<Rightarrow> pyobj) \<Rightarrow> standalone \<Rightarrow> (error + dtable \<times> standalone) option" where
  "union L self other func s =
     (if t_partitions other \<noteq> t_partitions self then
        if count_entries other s > count_entries self s then
          (let (name, s1) = new_uuid L s
           in case save_as L self name (job_id s) (Some (t_partitions other)) True s1 of
                None \<Rightarrow> None
              | Some (Inl e) \<Rightarrow> Some (Inl e)
              | Some (Inr (self', s2)) \<Rightarrow> union L self' other func s2)
        else
          (let (name, s1) = new_uuid L s
           in case save_as L other name (job_id s) (Some (t_partitions self)) True s1 of
                None \<Rightarrow> None
              | Some (Inl e) \<Rightarrow> Some (Inl e)
              | Some (Inr (other', s2)) \<Rightarrow> union L self other' func s2)
      else
        derived_table L self
          (\<lambda>p. do_union L func (env_for_partition self p) (env_for_partition other p)) s)"

definition union_default :: "pyobj \<Rightarrow> pyobj \<Rightarrow> pyobj" where
  "union_default v1 v2 = v1"

text \<open>
  \<^verbatim>\<open>
  def subtractByKey(self, other):
      _job_id = Standalone.get_instance().job_id
      if other._partitions != self._partitions:
          if other.count() > self.count():
              return self.save_as(str(uuid.uuid1()), _job_id, partition=other._partitions).subtractByKey(other)
          else:
              return self.union(other.save_as(str(uuid.uuid1()), _job_id, partition=self._partitions))
      ... one do_subtract_by_key task per partition ...
  \<close>
\<close>

partial_function (option) subtractByKey ::
  "libs \<Rightarrow> dtable \<Rightarrow> dtable \<Rightarrow> standalone \<Rightarrow> (error + dtable \<times> standalone) option" where
  "subtractByKey L self other s =
     (if t_partitions other \<noteq> t_partitions self then
        if count_entries other s > count_entries self s then
          (let (name, s1) = new_uuid L s
           in case save_as L self name (job_id s) (Some (t_partitions other)) True s1 of
                None \<Rightarrow> None
              | Some (Inl e) \<Rightarrow> Some (Inl e)
              | Some (Inr (self', s2)) \<Rightarrow> subtractByKey L self' other s2)
        else
          (let (name, s1) = new_uuid L s
           in case save_as L other name (job_id s) (Some (t_partitions self)) True s1 of
                None \<Rightarrow> None
              | Some (Inl e) \<Rightarrow> Some (Inl e)
              | Some (Inr (other', s2)) \<Rightarrow> union L self other' union_default s2)
      else
        derived_table L self
          (\<lambda>p. do_subtract_by_key (env_for_partition self p) (env_for_partition other p)) s)"

subsection \<open>What the operators expect of the libraries and of the engine\<close>

text \<open>
  pickle decodes what it encoded; a byte string is a pickle when decoding and encoding it
  again gives it back; the values of a table are pickles when they were written through
  \<^verbatim>\<open>put\<close> with serialization. The keys of a table are valid when they are keys that LMDB
  stores, as all keys of an environment are; the registry key of a table is in order when
  pickle encodes it to such a key. A name is fresh when the engine has no in-memory environment
  of that name in the job's namespace and the registry has no entry for it, which is what
  \<^verbatim>\<open>uuid.uuid1()\<close> is used for.
\<close>

definition pickle_roundtrip :: "libs \<Rightarrow> bool" where
  "pickle_roundtrip L \<longleftrightarrow> (\<forall>x b. pickle_dumps L x = Some b \<longrightarrow> pickle_loads L b = Some x)"

definition is_pickle :: "libs \<Rightarrow> bytes \<Rightarrow> bool" where
  "is_pickle L b = (case pickle_loads L b of None \<Rightarrow> False | Some x \<Rightarrow> pickle_dumps L x = Some b)"

definition pickled_values :: "libs \<Rightarrow> dtable \<Rightarrow> standalone \<Rightarrow> bool" where
  "pickled_values L T s \<longleftrightarrow>
     (\<forall>p\<in>set (py_range (t_partitions T)). \<forall>e\<in>set (fs s (env_for_partition T p)). is_pickle L (snd e))"

definition valid_keys :: "dtable \<Rightarrow> standalone \<Rightarrow> bool" where
  "valid_keys T s \<longleftrightarrow>
     (\<forall>p\<in>set (py_range (t_partitions T)). \<forall>e\<in>set (fs s (env_for_partition T p)). valid_key (fst e))"

definition registry_key_ok :: "libs \<Rightarrow> string \<Rightarrow> string \<Rightarrow> string \<Rightarrow> bool" where
  "registry_key_ok L ty namespace name =
     (case pickle_dumps L (PyStr (table_key ty namespace name)) of
        None \<Rightarrow> False
      | Some k_bytes \<Rightarrow> valid_key k_bytes)"

definition fresh_name :: "libs \<Rightarrow> standalone \<Rightarrow> string \<Rightarrow> bool" where
  "fresh_name L s name \<longleftrightarrow>
     (\<forall>q. fs s (StoreType_IN_MEMORY, job_id s, name, q) = []) \<and>
     (\<forall>b q. pickle_dumps L (PyStr (table_key StoreType_IN_MEMORY (job_id s) name)) = Some b \<longrightarrow>
        db_get b (fs s (env_for_partition meta_table q)) = None)"

subsection \<open>A small library instance for evaluating the model\<close>

text \<open>
  To run the model on concrete inputs the library parameters need values. This instance
  pickles small integers and strings by a tag byte and the content, has the all-zero
  digest for every key (so every key is routed to partition 0), and numbers the uuids.
\<close>

fun test_dumps :: "pyobj \<Rightarrow> bytes option" where
  "test_dumps (PyInt n) = (if 0 \<le> n \<and> n < 256 then Some [73, word_of_int n] else None)"
| "test_dumps (PyStr s) = Some (83 # map (\<lambda>c. word_of_nat (of_char c)) s)"
| "test_dumps _ = None"

fun test_loads :: "bytes \<Rightarrow> pyobj option" where
  "test_loads [] = None"
| "test_loads (t # bs) =
     (if t = 73 then (case bs of [b] \<Rightarrow> Some (PyInt (uint b)) | _ \<Rightarrow> None)
      else if t = 83 then Some (PyStr (map (\<lambda>b. char_of (unat b)) bs))
      else None)"

definition test_libs :: libs where
  "test_libs = \<lparr>
     sha1_digest = (\<lambda>b. replicate 20 0),
     pickle_dumps = test_dumps,
     pickle_loads = test_loads,
     string_to_bytes = (\<lambda>x. case x of PyBytes b \<Rightarrow> Some b | _ \<Rightarrow> None),
     bytes_to_string = (\<lambda>b. Some (PyBytes b)),
     uuid1 = (\<lambda>n. replicate (Suc n) CHR ''u''),
     random_sample = (\<lambda>seed i. if even (seed + int i) then 1 / 4 else 3 / 4),
     os_urandom = int\<rparr>"

definition empty_engine :: standalone where
  "empty_engine = \<lparr>job_id = ''job'', fs = (\<lambda>_. []), uuid_calls = 0, urandom_calls = 0\<rparr>"

text \<open>A table with two partitions after a bulk ingest of two entries.\<close>

definition two_entries :: standalone where
  "two_entries = projr (snd (the (put_all test_libs \<lparr>t_type = ''LMDB'', t_namespace = ''ns'', t_name = ''a'', t_partitions = 2\<rparr>
        ([PyTuple [PyInt 5, PyInt 1], PyTuple [PyInt 2, PyInt 3]], None) True empty_engine)))"

text \<open>A scenario: the same name and namespace registered first as persistent, then as in-memory.\<close>

definition other_tier_scenario :: "int res" where
  "other_tier_scenario =
     bnd (table test_libs ''a'' ''ns'' 4 True empty_engine) (\<lambda>(T1, s1).
     bnd (table test_libs ''a'' ''ns'' 2 False s1) (\<lambda>(T2, s2). ret (t_partitions T2)))"

text \<open>
  A scenario: a left table with one partition holding \<open>2 \<mapsto> 3\<close>, a right table with two
  partitions holding \<open>2 \<mapsto> 9\<close>; the entries of \<open>subtractByKey(left, right)\<close>.
\<close>

definition left_table :: dtable where
  "left_table = \<lparr>t_type = ''LMDB'', t_namespace = ''ns'', t_name = ''left'', t_partitions = 1\<rparr>"

definition right_table :: dtable where
  "right_table = \<lparr>t_type = ''LMDB'', t_namespace = ''ns'', t_name = ''right'', t_partitions = 2\<rparr>"

definition overlap_engine :: standalone where
  "overlap_engine = \<lparr>job_id = ''job'',
     fs = (\<lambda>_. [])((''LMDB'', ''ns'', ''left'', 0) := [([73, 2], [73, 3])],
                     (''LMDB'', ''ns'', ''right'', 0) := [([73, 2], [73, 9])]),
     uuid_calls = 0, urandom_calls = 0\<rparr>"

definition subtract_scenario :: "entry list res" where
  "subtract_scenario =
     bnd (subtractByKey test_libs left_table right_table overlap_engine) (\<lambda>(out, s). ret (collect out s))"

text \<open>A scenario: \<open>sample(1/2, seed)\<close> twice on the left table; the two outputs' partitions 0.\<close>

definition sample_twice :: "int option \<Rightarrow> (db \<times> db) res" where
  "sample_twice seed =
     bnd (sample test_libs left_table (1 / 2) seed overlap_engine) (\<lambda>(T1, s1).
     bnd (sample test_libs left_table (1 / 2) seed s1) (\<lambda>(T2, s2).
     ret (fs s2 (env_for_partition T1 0), fs s2 (env_for_partition T2 0))))"

declare jump_loop.simps [code]
declare union.simps [code]
declare subtractByKey.simps [code]

section \<open>The partition hasher always returns an index in range\<close>

subsection \<open>Rounding to the nearest integer\<close>

lemma rhe_of_int: "round_half_even (of_int n) = n"
  by (simp add: round_half_even_def)

lemma rhe_bounds: "of_int (round_half_even q) \<le> q + 1/2" "q - 1/2 \<le> of_int (round_half_even q)"
  unfolding round_half_even_def Let_def
  by (auto simp: not_less) linarith+

lemma rhe_ge: "of_int n \<le> q \<Longrightarrow> n \<le> round_half_even q"
proof -
  assume a: "of_int n \<le> q"
  then have "n \<le> \<lfloor>q\<rfloor>" by (simp add: le_floor_iff)
  then show ?thesis unfolding round_half_even_def Let_def by auto
qed

lemma rhe_le: "q \<le> of_int n \<Longrightarrow> round_half_even q \<le> n"
proof -
  assume a: "q \<le> of_int n"
  show ?thesis
  proof (cases "q = of_int n")
    case True then show ?thesis by (simp add: rhe_of_int)
  next
    case False
    with a have "q < of_int n" by simp
    then have "\<lfloor>q\<rfloor> < n" by (simp add: floor_less_iff)
    then show ?thesis unfolding round_half_even_def Let_def by auto
  qed
qed

lemma rhe_mono: "a \<le> b \<Longrightarrow> round_half_even a \<le> round_half_even b"
proof -
  assume ab: "a \<le> b"
  have fl: "\<lfloor>a\<rfloor> \<le> \<lfloor>b\<rfloor>" using ab by (rule floor_mono)
  show ?thesis
  proof (cases "\<lfloor>a\<rfloor> = \<lfloor>b\<rfloor>")
    case True
    then show ?thesis using ab unfolding round_half_even_def Let_def by auto
  next
    case False
    with fl have "\<lfloor>a\<rfloor> + 1 \<le> \<lfloor>b\<rfloor>" by simp
    moreover have "round_half_even a \<le> \<lfloor>a\<rfloor> + 1" unfolding round_half_even_def Let_def by auto
    moreover have "\<lfloor>b\<rfloor> \<le> round_half_even b" unfolding round_half_even_def Let_def by auto
    ultimately show ?thesis by linarith
  qed
qed

subsection \<open>Binary exponents and representable numbers\<close>

text \<open>
  \<open>expo q\<close> is the binary exponent of \<open>q \<ge> 1\<close>; \<open>is53 f\<close> says that \<open>f \<ge> 1\<close> has a
  53-bit significand, so that rounding leaves it unchanged.
\<close>

definition expo :: "rat \<Rightarrow> int" where
  "expo q = bitlen \<lfloor>q\<rfloor> - 1"

definition is53 :: "rat \<Rightarrow> bool" where
  "is53 f \<longleftrightarrow> (\<exists>M E. 2 ^ 52 \<le> M \<and> M \<le> 2 ^ 53 \<and> 0 \<le> E \<and> f = of_int M * 2 powi (E - 52))"

lemma expo_bounds:
  assumes "1 \<le> q"
  shows "0 \<le> expo q" "2 powi expo q \<le> q" "q < 2 powi (expo q + 1)"
proof -
  let ?x = "\<lfloor>q\<rfloor>"
  from assms have x: "0 < ?x" by simp
  from bitlen_bounds[OF x] have b: "2 ^ nat (bitlen ?x - 1) \<le> ?x" "?x < 2 ^ nat (bitlen ?x)" by auto
  have b1: "1 \<le> bitlen ?x" using x by (auto simp: bitlen_alt_def)
  then show e0: "0 \<le> expo q" by (simp add: expo_def)
  have "(of_int (2 ^ nat (bitlen ?x - 1)) :: rat) \<le> of_int ?x" using b(1) by (simp only: of_int_le_iff)
  also have "\<dots> \<le> q" by simp
  finally show "2 powi expo q \<le> q" using e0 by (simp add: expo_def power_int_def)
  have "?x + 1 \<le> 2 ^ nat (bitlen ?x)" using b(2) by simp
  then have "(of_int (?x + 1) :: rat) \<le> of_int (2 ^ nat (bitlen ?x))" by (simp only: of_int_le_iff)
  moreover have "q < of_int (?x + 1)" by linarith
  ultimately have "q < of_int (2 ^ nat (bitlen ?x))" by linarith
  then show "q < 2 powi (expo q + 1)" using b1 by (simp add: expo_def power_int_def)
qed

lemma powi2_less_imp: "(2::rat) powi a < 2 powi b \<Longrightarrow> a < b"
proof (rule ccontr)
  assume a: "2 powi a < (2::rat) powi b" and "\<not> a < b"
  then have "b \<le> a" by simp
  then have "(2::rat) powi b \<le> 2 powi a" by (intro power_int_increasing) auto
  with a show False by simp
qed

lemma expo_unique:
  assumes "0 \<le> E" "2 powi E \<le> q" "q < 2 powi (E + 1)"
  shows "expo q = E"
proof -
  have "(1::rat) \<le> 2 powi E" using assms(1) by (simp add: one_le_power_int)
  with assms have q1: "1 \<le> q" by linarith
  note eb = expo_bounds[OF q1]
  have "(2::rat) powi expo q < 2 powi (E + 1)" using eb(2) assms(3) by linarith
  then have 1: "expo q < E + 1" by (rule powi2_less_imp)
  have "(2::rat) powi E < 2 powi (expo q + 1)" using eb(3) assms(2) by linarith
  then have 2: "E < expo q + 1" by (rule powi2_less_imp)
  from 1 2 show ?thesis by simp
qed

lemma round53_powi:
  "round53 q = of_int (round_half_even (q * 2 powi (52 - expo q))) * 2 powi (expo q - 52)"
  unfolding round53_def Let_def expo_def[symmetric]
  by (auto simp: power_int_def nat_diff_distrib field_simps)

subsection \<open>Rounding is monotone and fixes representable numbers\<close>

lemma powi2_split: "(2::rat) powi a * 2 powi b = 2 powi (a + b)"
  by (simp add: power_int_add)

lemma pw2: "(2::rat) ^ n * 2 powi (e - int n) = 2 powi e"
proof -
  have "(2::rat) powi e = 2 powi int n * 2 powi (e - int n)" by (simp only: powi2_split) simp
  also have "(2::rat) powi int n = 2 ^ n" by (simp add: power_int_def)
  finally show ?thesis by simp
qed

lemma pw52: "(2::rat) ^ 52 * 2 powi (e - 52) = 2 powi e"
  using pw2[of 52 e] by (simp only: of_nat_numeral)

lemma pw53: "(2::rat) ^ 53 * 2 powi (e - 52) = 2 powi (e + 1)"
  using pw2[of 53 "e + 1"] by (simp only: of_nat_numeral) (simp only: add_diff_eq[symmetric], simp)

lemma pw52': "(2::rat) powi e * 2 powi (52 - e) = 2 ^ 52"
  using powi2_split[of e "52 - e"] by (simp add: power_int_def)

lemma pw53': "(2::rat) powi (e + 1) * 2 powi (52 - e) = 2 ^ 53"
  using powi2_split[of "e + 1" "52 - e"] by (simp add: power_int_def)

lemma scale_mono: "(a::rat) \<le> b \<Longrightarrow> a * 2 powi n \<le> b * 2 powi n"
  by (intro mult_right_mono) auto

lemma scale_strict_mono: "(a::rat) < b \<Longrightarrow> a * 2 powi n < b * 2 powi n"
  by (intro mult_strict_right_mono) auto

lemma scaled_bounds:
  assumes "1 \<le> q"
  shows "2 ^ 52 \<le> q * 2 powi (52 - expo q)" "q * 2 powi (52 - expo q) < 2 ^ 53"
proof -
  note eb = expo_bounds[OF assms]
  show "2 ^ 52 \<le> q * 2 powi (52 - expo q)"
    using scale_mono[OF eb(2), of "52 - expo q"] by (simp only: pw52')
  show "q * 2 powi (52 - expo q) < 2 ^ 53"
    using scale_strict_mono[OF eb(3), of "52 - expo q"] by (simp only: pw53')
qed

lemma mant_bounds:
  assumes "1 \<le> q"
  shows "(2::rat) ^ 52 \<le> of_int (round_half_even (q * 2 powi (52 - expo q)))"
    "of_int (round_half_even (q * 2 powi (52 - expo q))) \<le> (2::rat) ^ 53"
proof -
  note sb = scaled_bounds[OF assms]
  have "of_int (2 ^ 52) \<le> q * 2 powi (52 - expo q)" using sb(1) by simp
  then have "2 ^ 52 \<le> round_half_even (q * 2 powi (52 - expo q))" by (rule rhe_ge)
  then have "(of_int (2 ^ 52) :: rat) \<le> of_int (round_half_even (q * 2 powi (52 - expo q)))"
    by (simp only: of_int_le_iff)
  then show "(2::rat) ^ 52 \<le> of_int (round_half_even (q * 2 powi (52 - expo q)))" by simp
  have "q * 2 powi (52 - expo q) \<le> of_int (2 ^ 53)" using sb(2) by simp
  then have "round_half_even (q * 2 powi (52 - expo q)) \<le> 2 ^ 53" by (rule rhe_le)
  then have "(of_int (round_half_even (q * 2 powi (52 - expo q))) :: rat) \<le> of_int (2 ^ 53)"
    by (simp only: of_int_le_iff)
  then show "of_int (round_half_even (q * 2 powi (52 - expo q))) \<le> (2::rat) ^ 53" by simp
qed

lemma round53_is53: 
  assumes "1 \<le> q" shows "is53 (round53 q)"
proof -
  let ?M = "round_half_even (q * 2 powi (52 - expo q))"
  note mb = mant_bounds[OF assms]
  have "(of_int (2 ^ 52) :: rat) \<le> of_int ?M" using mb(1) by simp
  then have 1: "2 ^ 52 \<le> ?M" by (simp only: of_int_le_iff)
  have "(of_int ?M :: rat) \<le> of_int (2 ^ 53)" using mb(2) by simp
  then have 2: "?M \<le> 2 ^ 53" by (simp only: of_int_le_iff)
  show ?thesis unfolding is53_def
    using 1 2 expo_bounds(1)[OF assms] round53_powi[of q] by blast
qed

lemma round53_lower: 
  assumes "1 \<le> q" shows "2 powi expo q \<le> round53 q"
  using scale_mono[OF mant_bounds(1)[OF assms], of "expo q - 52"]
  by (simp only: pw52 round53_powi)

lemma round53_upper: 
  assumes "1 \<le> q" shows "round53 q \<le> 2 powi (expo q + 1)"
  using scale_mono[OF mant_bounds(2)[OF assms], of "expo q - 52"]
  by (simp only: pw53 round53_powi)

lemma expo_mono: 
  assumes "1 \<le> a" "a \<le> b" shows "expo a \<le> expo b"
proof -
  have b1: "1 \<le> b" using assms by simp
  have "2 powi expo a \<le> a" using expo_bounds(2)[OF assms(1)] .
  also have "a \<le> b" by fact
  also have "b < 2 powi (expo b + 1)" using expo_bounds(3)[OF b1] .
  finally have "expo a < expo b + 1" by (rule powi2_less_imp)
  then show ?thesis by simp
qed

lemma round53_mono:
  assumes "1 \<le> a" "a \<le> b"
  shows "round53 a \<le> round53 b"
proof -
  have b1: "1 \<le> b" using assms by simp
  have le: "expo a \<le> expo b" using assms by (rule expo_mono)
  show ?thesis
  proof (cases "expo a = expo b")
    case True
    have "a * 2 powi (52 - expo b) \<le> b * 2 powi (52 - expo b)"
      using assms(2) by (rule scale_mono)
    then have "round_half_even (a * 2 powi (52 - expo b)) \<le> round_half_even (b * 2 powi (52 - expo b))"
      by (rule rhe_mono)
    then have "(of_int (round_half_even (a * 2 powi (52 - expo b))) :: rat) \<le> of_int (round_half_even (b * 2 powi (52 - expo b)))"
      by (simp only: of_int_le_iff)
    then have "of_int (round_half_even (a * 2 powi (52 - expo b))) * 2 powi (expo b - 52)
        \<le> of_int (round_half_even (b * 2 powi (52 - expo b))) * (2::rat) powi (expo b - 52)"
      by (rule scale_mono)
    then show ?thesis by (simp only: round53_powi[of a] round53_powi[of b] True)
  next
    case False
    with le have "expo a + 1 \<le> expo b" by simp
    then have "(2::rat) powi (expo a + 1) \<le> 2 powi expo b" by (intro power_int_increasing) auto
    with round53_upper[OF assms(1)] round53_lower[OF b1] show ?thesis by linarith
  qed
qed

lemma is53_lower:
  assumes "2 ^ 52 \<le> M" shows "(2::rat) powi E \<le> of_int M * 2 powi (E - 52)"
proof -
  have "(of_int (2 ^ 52) :: rat) \<le> of_int M" using assms by (simp only: of_int_le_iff)
  then have "(2::rat) ^ 52 \<le> of_int M" by simp
  from scale_mono[OF this, of "E - 52"] show ?thesis by (simp only: pw52)
qed

lemma is53_upper:
  assumes "M < 2 ^ 53" shows "of_int M * 2 powi (E - 52) < (2::rat) powi (E + 1)"
proof -
  have "(of_int M :: rat) < of_int (2 ^ 53)" using assms by (simp only: of_int_less_iff)
  then have "of_int M < (2::rat) ^ 53" by simp
  from scale_strict_mono[OF this, of "E - 52"] show ?thesis by (simp only: pw53)
qed

lemma is53_ge1: "is53 f \<Longrightarrow> 1 \<le> f"
proof -
  assume "is53 f"
  then obtain M E where m: "2 ^ 52 \<le> M" "0 \<le> E" "f = of_int M * 2 powi (E - 52)"
    unfolding is53_def by blast
  have "(1::rat) \<le> 2 powi E" using m(2) by simp
  with is53_lower[OF m(1), of E] m(3) show ?thesis by linarith
qed

lemma round53_exact:
  assumes m: "2 ^ 52 \<le> M" "M < 2 ^ 53" "0 \<le> E"
  shows "round53 (of_int M * 2 powi (E - 52)) = of_int M * 2 powi (E - 52)"
proof -
  let ?f = "of_int M * (2::rat) powi (E - 52)"
  have ex: "expo ?f = E" by (rule expo_unique[OF m(3) is53_lower[OF m(1)] is53_upper[OF m(2)]])
  have "?f * 2 powi (52 - expo ?f) = of_int M * (2 powi (E - 52) * 2 powi (52 - E))"
    by (simp only: ex mult.assoc)
  also have "\<dots> = of_int M" by (simp add: powi2_split)
  finally have "round_half_even (?f * 2 powi (52 - expo ?f)) = M" by (simp only: rhe_of_int)
  then show ?thesis by (simp only: round53_powi[of ?f] ex)
qed

lemma is53_normal:
  assumes "is53 f"
  shows "\<exists>M E. 2 ^ 52 \<le> M \<and> M < 2 ^ 53 \<and> 0 \<le> E \<and> f = of_int M * 2 powi (E - 52)"
proof -
  from assms obtain M E where m: "2 ^ 52 \<le> M" "M \<le> 2 ^ 53" "0 \<le> E" "f = of_int M * 2 powi (E - 52)"
    unfolding is53_def by blast
  show ?thesis
  proof (cases "M = 2 ^ 53")
    case True
    have "f = 2 ^ 53 * 2 powi (E - 52)" using m(4) True by simp
    also have "\<dots> = 2 powi (E + 1)" by (rule pw53)
    also have "\<dots> = 2 ^ 52 * 2 powi (E + 1 - 52)" by (rule pw52[symmetric])
    also have "\<dots> = of_int (2 ^ 52) * 2 powi (E + 1 - 52)" by simp
    finally have "f = of_int (2 ^ 52) * 2 powi (E + 1 - 52)" .
    moreover have "(2::int) ^ 52 \<le> 2 ^ 52" "(2::int) ^ 52 < 2 ^ 53" "0 \<le> E + 1" using m(3) by auto
    ultimately show ?thesis by blast
  next
    case False
    with m(2) have "M < 2 ^ 53" by simp
    with m show ?thesis by blast
  qed
qed

lemma round53_idem:
  assumes "is53 f" shows "round53 f = f"
  using is53_normal[OF assms] round53_exact by blast

lemma round53_ge:
  assumes "is53 f" "f \<le> q" shows "f \<le> round53 q"
  using round53_mono[OF is53_ge1[OF assms(1)] assms(2)] round53_idem[OF assms(1)] by simp

subsection \<open>Integers and large floats\<close>

lemma int_exact:
  assumes "1 \<le> n" "n \<le> 2 ^ 53"
  shows "round53 (of_int n) = of_int n"
proof (cases "n = 2 ^ 53")
  case True
  have "is53 (of_int n)" unfolding is53_def
    by (rule exI[of _ "2 ^ 53"], rule exI[of _ 52]) (simp add: True)
  then show ?thesis by (rule round53_idem)
next
  case False
  let ?q = "of_int n :: rat"
  have q1: "1 \<le> ?q" using assms by simp
  note eb = expo_bounds[OF q1]
  have "n < 2 ^ 53" using False assms by simp
  then have "?q < of_int (2 ^ 53)" by (simp only: of_int_less_iff)
  then have "?q < 2 powi 53" by simp
  with eb(2) have "(2::rat) powi expo ?q < 2 powi 53" by linarith
  then have e: "expo ?q < 53" by (rule powi2_less_imp)
  then have "(2::rat) powi (52 - expo ?q) = of_int (2 ^ nat (52 - expo ?q))"
    by (simp add: power_int_def)
  then have "?q * 2 powi (52 - expo ?q) = of_int (n * 2 ^ nat (52 - expo ?q))" by simp
  then have "round_half_even (?q * 2 powi (52 - expo ?q)) = n * 2 ^ nat (52 - expo ?q)"
    by (simp only: rhe_of_int)
  then have "round53 ?q = of_int (n * 2 ^ nat (52 - expo ?q)) * 2 powi (expo ?q - 52)"
    by (simp only: round53_powi[of ?q])
  also have "\<dots> = ?q * (2 powi (52 - expo ?q) * 2 powi (expo ?q - 52))"
    using e by (simp add: power_int_def)
  also have "\<dots> = ?q" by (simp add: powi2_split)
  finally show ?thesis .
qed

lemma int_is53:
  assumes "1 \<le> n" "n \<le> 2 ^ 53"
  shows "is53 (of_int n)"
  using round53_is53[of "of_int n"] int_exact[OF assms] assms(1) by simp

lemma is53_one: "is53 1"
  using int_is53[of 1] by simp

text \<open>A float of at least \<open>2 ^ 53\<close> is an integer, and the next float is at least two away.\<close>

lemma is53_big:
  assumes "is53 q" "2 ^ 53 \<le> q"
  obtains M E where "2 ^ 52 \<le> M" "M < 2 ^ 53" "53 \<le> E" "q = of_int M * 2 powi (E - 52)"
proof -
  from is53_normal[OF assms(1)] obtain M E where
    m: "2 ^ 52 \<le> M" "M < 2 ^ 53" "0 \<le> E" "q = of_int M * 2 powi (E - 52)" by blast
  have "q < 2 powi (E + 1)" using is53_upper[OF m(2), of E] m(4) by simp
  with assms(2) have "(2::rat) powi 53 < 2 powi (E + 1)" by simp
  then have "53 < E + 1" by (rule powi2_less_imp)
  then have "53 \<le> E" by simp
  with m that show ?thesis by blast
qed

lemma is53_big_int:
  assumes "is53 q" "2 ^ 53 \<le> q"
  shows "of_int \<lfloor>q\<rfloor> = q"
proof -
  from is53_big[OF assms] obtain M E where
    m: "2 ^ 52 \<le> M" "M < 2 ^ 53" "53 \<le> E" "q = of_int M * 2 powi (E - 52)" by blast
  have "(2::rat) powi (E - 52) = of_int (2 ^ nat (E - 52))" using m(3) by (simp add: power_int_def)
  then have "q = of_int (M * 2 ^ nat (E - 52))" using m(4) by simp
  then show ?thesis by (metis floor_of_int)
qed

lemma is53_succ:
  assumes "is53 q" "2 ^ 53 \<le> q" "q * (1 + 1 / 2 ^ 31) \<le> x"
  shows "q + 2 \<le> round53 x"
proof -
  from is53_big[OF assms(1,2)] obtain M E where
    m: "2 ^ 52 \<le> M" "M < 2 ^ 53" "53 \<le> E" "q = of_int M * 2 powi (E - 52)" by blast
  let ?u = "(2::rat) powi (E - 52)"
  let ?g = "of_int (M + 1) * ?u"
  have E0: "0 \<le> E" using m(3) by simp
  have g53: "is53 ?g" unfolding is53_def using m(1,2) E0 
    by (intro exI[of _ "M + 1"] exI[of _ E]) auto
  have u2: "2 \<le> ?u"
  proof -
    have "(2::rat) powi 1 \<le> 2 powi (E - 52)" using m(3) by (intro power_int_increasing) auto
    then show ?thesis by simp
  qed
  have g: "?g = q + ?u" by (simp add: m(4) algebra_simps)
  have "(2::rat) powi E \<le> q" using is53_lower[OF m(1), of E] m(4) by simp
  then have "2 powi E * (1 / 2 ^ 31) \<le> q * (1 / 2 ^ 31 :: rat)" by (intro mult_right_mono) auto
  moreover have "?u \<le> 2 powi E * (1 / 2 ^ 31)"
  proof -
    have "(2::rat) powi (E - 52) \<le> 2 powi (E - 31)" by (intro power_int_increasing) auto
    also have "\<dots> = 2 powi E * (1 / 2 ^ 31)" by (simp add: power_int_diff)
    finally show ?thesis .
  qed
  ultimately have "?u \<le> q * (1 / 2 ^ 31)" by linarith
  then have "?g \<le> q * (1 + 1 / 2 ^ 31)" unfolding g by (simp add: algebra_simps)
  with assms(3) have "?g \<le> x" by linarith
  from round53_ge[OF g53 this] have "q + ?u \<le> round53 x" unfolding g .
  with u2 show ?thesis by linarith
qed

text \<open>Adding one to a float of at least \<open>2 ^ 54\<close> rounds back to it.\<close>

lemma round53_succ_big:
  assumes "is53 q" "2 ^ 54 \<le> q"
  shows "round53 (q + 1) = q"
proof -
  have "(2::rat) ^ 53 \<le> q" using assms(2) by simp
  from is53_big[OF assms(1) this] obtain M E where
    m: "2 ^ 52 \<le> M" "M < 2 ^ 53" "53 \<le> E" "q = of_int M * 2 powi (E - 52)" by blast
  have "q < 2 powi (E + 1)" using is53_upper[OF m(2), of E] m(4) by simp
  with assms(2) have "(2::rat) powi 54 < 2 powi (E + 1)" by simp
  then have "54 < E + 1" by (rule powi2_less_imp)
  then have E54: "54 \<le> E" by simp
  have E0: "0 \<le> E" using E54 by simp
  let ?u = "(2::rat) powi (E - 52)"
  have u4: "4 \<le> ?u"
  proof -
    have "(2::rat) powi 2 \<le> 2 powi (E - 52)" using E54 by (intro power_int_increasing) auto
    then show ?thesis by simp
  qed
  have lo: "2 powi E \<le> q + 1" using is53_lower[OF m(1), of E] m(4) by simp
  have "M + 1 \<le> 2 ^ 53" using m(2) by simp
  then have "(of_int (M + 1) :: rat) \<le> of_int (2 ^ 53)" by (simp only: of_int_le_iff)
  then have "of_int (M + 1) \<le> (2::rat) ^ 53" by simp
  from scale_mono[OF this, of "E - 52"] have "of_int (M + 1) * ?u \<le> 2 powi (E + 1)" by (simp only: pw53)
  then have "q + ?u \<le> 2 powi (E + 1)" by (simp add: m(4) algebra_simps)
  with u4 have hi: "q + 1 < 2 powi (E + 1)" by linarith
  have ex: "expo (q + 1) = E" by (rule expo_unique[OF E0 lo hi])
  let ?v = "(2::rat) powi (52 - E)"
  have uv: "?u * ?v = 1" by (simp add: powi2_split)
  have v: "?v \<le> 1 / 4" 
  proof -
    have "?v \<le> 2 powi (- 2)" using E54 by (intro power_int_increasing) auto
    then show ?thesis by (simp add: power_int_minus)
  qed
  have vpos: "0 < ?v" by simp
  have s: "(q + 1) * ?v = of_int M + ?v"
    using uv by (simp add: m(4) algebra_simps)
  have fl: "\<lfloor>of_int M + ?v\<rfloor> = M" using v vpos by (intro floor_unique) auto
  have "round_half_even (of_int M + ?v) = M"
    unfolding round_half_even_def Let_def fl using v by simp
  then have "round_half_even ((q + 1) * 2 powi (52 - expo (q + 1))) = M"
    by (simp only: ex s)
  then have "round53 (q + 1) = of_int M * 2 powi (E - 52)"
    by (simp only: round53_powi[of "q + 1"] ex)
  then show ?thesis by (simp only: m(4))
qed

subsection \<open>One iteration of the loop\<close>

text \<open>\<open>dbl q\<close>: \<open>q\<close> is a finite float that is at least one.\<close>

definition dbl :: "rat \<Rightarrow> bool" where
  "dbl q \<longleftrightarrow> is53 q \<and> q < 2 ^ 1024"

lemma and_mask64: "(x::int) AND 0xffffffffffffffff = x mod 2 ^ 64"
proof -
  have "(0xffffffffffffffff :: int) = mask 64" by (simp add: mask_eq_exp_minus_1)
  then show ?thesis by (simp only: take_bit_eq_mask[symmetric] take_bit_eq_mod)
qed

lemma next_key_mod: "next_key k = (k * 2862933555777941757 + 1) mod 2 ^ 64"
  by (simp only: next_key_def and_mask64)

lemma next_key_range: "0 \<le> next_key k" "next_key k < 2 ^ 64"
  by (simp_all add: next_key_mod)

lemma divisor_range:
  assumes "0 \<le> (k::int)" "k < 2 ^ 64"
  shows "1 \<le> drop_bit 33 k + 1" "drop_bit 33 k + 1 \<le> 2 ^ 31"
proof -
  have d: "drop_bit 33 k = k div 2 ^ 33" by (simp add: drop_bit_eq_div)
  show "1 \<le> drop_bit 33 k + 1" using assms(1) unfolding d by (simp add: pos_imp_zdiv_nonneg_iff)
  have "k div 2 ^ 33 < 2 ^ 31" using assms(2) by (simp add: div_less_iff_less_mult)
  then show "drop_bit 33 k + 1 \<le> 2 ^ 31" unfolding d by simp
qed

lemma float_div_ge1:
  assumes "1 \<le> x" "x \<le> 2 ^ 31"
  shows "1 \<le> float_div (2 ^ 31) (of_int x)" "is53 (float_div (2 ^ 31) (of_int x))"
proof -
  have x0: "(0::rat) < of_int x" using assms(1) by simp
  have "(of_int x :: rat) \<le> of_int (2 ^ 31)" using assms(2) by (simp only: of_int_le_iff)
  then have "(of_int x :: rat) \<le> 2 ^ 31" by simp
  then have q1: "(1::rat) \<le> 2 ^ 31 / of_int x" using x0 by (simp add: le_divide_eq)
  show "1 \<le> float_div (2 ^ 31) (of_int x)"
    unfolding float_div_def by (rule round53_ge[OF is53_one q1])
  show "is53 (float_div (2 ^ 31) (of_int x))"
    unfolding float_div_def by (rule round53_is53[OF q1])
qed

lemma is53_eps: "is53 (1 + 1 / 2 ^ 31)"
  unfolding is53_def
  by (rule exI[of _ "2 ^ 52 + 2 ^ 21"], rule exI[of _ 0]) (simp add: power_int_minus)

lemma float_div_gt1:
  assumes "1 \<le> x" "x < 2 ^ 31"
  shows "1 + 1 / 2 ^ 31 \<le> float_div (2 ^ 31) (of_int x)"
proof -
  have x0: "(0::rat) < of_int x" using assms(1) by simp
  have "x \<le> 2 ^ 31 - 1" using assms(2) by simp
  then have "(of_int x :: rat) \<le> of_int (2 ^ 31 - 1)" by (simp only: of_int_le_iff)
  then have "(of_int x :: rat) \<le> 2 ^ 31 - 1" by simp
  then have "(1 + 1 / 2 ^ 31) * (of_int x :: rat) \<le> (1 + 1 / 2 ^ 31) * (2 ^ 31 - 1)"
    by (intro mult_left_mono) auto
  also have "\<dots> \<le> 2 ^ 31" by simp
  finally have "(1 + 1 / 2 ^ 31 :: rat) \<le> 2 ^ 31 / of_int x" using x0 by (simp add: le_divide_eq)
  then show ?thesis unfolding float_div_def by (rule round53_ge[OF is53_eps])
qed

lemma is53_p54: "is53 (2 ^ 54)"
  unfolding is53_def
  by (rule exI[of _ "2 ^ 52"], rule exI[of _ 54]) simp

text \<open>\<open>float(b + 1)\<close> for \<open>b = int(j)\<close>: no overflow, and the result is at least \<open>b\<close>.\<close>

lemma float_succ:
  assumes "q = 0 \<or> dbl q"
  obtains fb where "float_of_int (\<lfloor>q\<rfloor> + 1) = Inr fb" "is53 fb" "of_int \<lfloor>q\<rfloor> \<le> fb"
    "q < 2 ^ 53 \<Longrightarrow> fb = of_int \<lfloor>q\<rfloor> + 1" "2 ^ 53 \<le> q \<Longrightarrow> of_int \<lfloor>q\<rfloor> = q"
proof -
  let ?b = "\<lfloor>q\<rfloor>"
  have q0: "0 \<le> q" using assms is53_ge1[of q] by (auto simp: dbl_def)
  then have b0: "0 \<le> ?b" by simp
  let ?fb = "round53 (of_int (?b + 1))"
  have b1: "(1::rat) \<le> of_int (?b + 1)" using b0 by simp
  have fb53: "is53 ?fb" by (rule round53_is53[OF b1])
  have *: "?fb < 2 ^ 1024 \<and> of_int ?b \<le> ?fb \<and> (q < 2 ^ 53 \<longrightarrow> ?fb = of_int ?b + 1)
     \<and> (2 ^ 53 \<le> q \<longrightarrow> of_int ?b = q)"
  proof (cases "q < 2 ^ 53")
    case True
    then have "q < of_int (2 ^ 53)" by simp
    then have "?b < 2 ^ 53" by (simp only: floor_less_iff)
    then have "?b + 1 \<le> 2 ^ 53" by simp
    from int_exact[OF _ this] b0 have "?fb = of_int (?b + 1)" by simp
    moreover have "(of_int (?b + 1) :: rat) \<le> of_int (2 ^ 53)" using \<open>?b + 1 \<le> 2 ^ 53\<close> by (simp only: of_int_le_iff)
    then have "(of_int (?b + 1) :: rat) < 2 ^ 1024" by simp
    ultimately show ?thesis using True by simp
  next
    case False
    then have big: "2 ^ 53 \<le> q" by simp
    with assms have d: "is53 q" "q < 2 ^ 1024" by (auto simp: dbl_def)
    have bq: "of_int ?b = q" by (rule is53_big_int[OF d(1) big])
    have eq: "(of_int (?b + 1) :: rat) = q + 1" using bq by simp
    have ge: "q \<le> ?fb" unfolding eq by (rule round53_ge[OF d(1)]) simp
    have "?fb < 2 ^ 1024"
    proof (cases "q < 2 ^ 54")
      case True
      then have "q < of_int (2 ^ 54)" by simp
      then have "?b < 2 ^ 54" by (simp only: floor_less_iff)
      then have "?b + 1 \<le> 2 ^ 54" by simp
      then have "(of_int (?b + 1) :: rat) \<le> of_int (2 ^ 54)" by (simp only: of_int_le_iff)
      then have "(of_int (?b + 1) :: rat) \<le> 2 ^ 54" by simp
      from round53_mono[OF b1 this] have "?fb \<le> 2 ^ 54" by (simp only: round53_idem[OF is53_p54])
      then show ?thesis by simp
    next
      case False
      then have "2 ^ 54 \<le> q" by simp
      from round53_succ_big[OF d(1) this] show ?thesis unfolding eq using d(2) by simp
    qed
    moreover have "of_int ?b \<le> ?fb" using ge bq by linarith
    moreover have "\<not> q < 2 ^ 53" using big by linarith
    ultimately show ?thesis using bq by blast
  qed
  have "\<not> ?b + 1 \<le> 0" using b0 by linarith
  moreover have "?fb < 2 ^ 1024" using * by blast
  ultimately have "float_of_int (?b + 1) = Inr ?fb"
    unfolding float_of_int_def Let_def by (simp only: if_False if_True)
  with fb53 * that show ?thesis by blast
qed

lemma next_j_step:
  assumes q: "q = 0 \<or> dbl q" and x: "1 \<le> drop_bit 33 k + 1" "drop_bit 33 k + 1 \<le> 2 ^ 31"
  shows "\<exists>j'. next_j \<lfloor>q\<rfloor> k = Some (Inr j') \<and>
    (j' = Inf \<or> (\<exists>q'. j' = Finite q' \<and> dbl q' \<and> \<lfloor>q\<rfloor> \<le> \<lfloor>q'\<rfloor> \<and>
       (drop_bit 33 k + 1 < 2 ^ 31 \<longrightarrow> \<lfloor>q\<rfloor> < \<lfloor>q'\<rfloor>)))"
proof -
  let ?b = "\<lfloor>q\<rfloor>" and ?x = "drop_bit 33 k + 1"
  from float_succ[OF q] obtain fb where fb: "float_of_int (?b + 1) = Inr fb" "is53 fb" "of_int ?b \<le> fb"
    "q < 2 ^ 53 \<Longrightarrow> fb = of_int ?b + 1" "2 ^ 53 \<le> q \<Longrightarrow> of_int ?b = q" by blast
  let ?r = "float_div (2 ^ 31) (of_int ?x)"
  note r = float_div_ge1[OF x]
  let ?q' = "round53 (fb * ?r)"
  have fb1: "1 \<le> fb" by (rule is53_ge1[OF fb(2)])
  have "fb * 1 \<le> fb * ?r" using r(1) fb1 by (intro mult_left_mono) auto
  then have p: "fb \<le> fb * ?r" by simp
  have q'53: "is53 ?q'" by (rule round53_is53) (use p fb1 in linarith)
  have q'ge: "fb \<le> ?q'" by (rule round53_ge[OF fb(2) p])
  have nj: "next_j ?b k = Some (Inr (float_mul fb ?r))"
    by (simp add: next_j_def fb(1) ret_def)
  show ?thesis
  proof (cases "?q' < 2 ^ 1024")
    case False
    then have "float_mul fb ?r = Inf" by (simp add: float_mul_def)
    with nj show ?thesis by simp
  next
    case True
    then have fm: "float_mul fb ?r = Finite ?q'" by (simp add: float_mul_def)
    have d: "dbl ?q'" using q'53 True by (simp add: dbl_def)
    have "of_int ?b \<le> ?q'" using fb(3) q'ge by linarith
    then have mono: "?b \<le> \<lfloor>?q'\<rfloor>" by (simp add: le_floor_iff)
    have strict: "?b < \<lfloor>?q'\<rfloor>" if lt: "?x < 2 ^ 31"
    proof (cases "q < 2 ^ 53")
      case True
      from fb(4)[OF True] q'ge have "of_int (?b + 1) \<le> ?q'" by simp
      then have "?b + 1 \<le> \<lfloor>?q'\<rfloor>" by (simp only: le_floor_iff)
      then show ?thesis by simp
    next
      case False
      then have big: "2 ^ 53 \<le> q" by simp
      with q have q53: "is53 q" by (auto simp: dbl_def)
      have bq: "of_int ?b = q" by (rule fb(5)[OF big])
      have qfb: "q \<le> fb" using fb(3) bq by simp
      have e: "1 + 1 / 2 ^ 31 \<le> ?r" by (rule float_div_gt1[OF x(1) lt])
      have q0: "0 \<le> q" using big by simp
      have "q * (1 + 1 / 2 ^ 31) \<le> fb * ?r"
        using qfb e q0 by (intro mult_mono) auto
      from is53_succ[OF q53 big this] have "of_int ?b + 2 \<le> ?q'" using bq by linarith
      then have "of_int (?b + 2) \<le> ?q'" by simp
      then have "?b + 2 \<le> \<lfloor>?q'\<rfloor>" by (simp only: le_floor_iff)
      then show ?thesis by simp
    qed
    show ?thesis using nj fm d mono strict by auto
  qed
qed

subsection \<open>The key sequence leaves the top bucket\<close>

text \<open>
  The loop can fail to advance \<open>b\<close> only while the divisor \<open>(_key >> 33) + 1\<close> is
  \<open>2 ^ 31\<close>. The multiplier is congruent to 5 modulo 8, so the differences of
  consecutive keys cannot stay small for \<open>2 ^ 32\<close> steps: the keys leave that bucket.
\<close>

lemma sq_step:
  assumes "(a::int) ^ (2 ^ i) mod m = s"
  shows "a ^ (2 ^ (i + 1)) mod m = s * s mod m"
proof -
  have "a ^ (2 ^ (i + 1)) = a ^ (2 ^ i) * a ^ (2 ^ i)"
    by (simp add: power_add[symmetric] mult_2)
  then have "a ^ (2 ^ (i + 1)) mod m = (a ^ (2 ^ i) mod m) * (a ^ (2 ^ i) mod m) mod m"
    by (simp only: mod_mult_eq)
  then show ?thesis by (simp only: assms)
qed

lemma mult_pow32:
  fixes a :: int
  assumes a: "a = 2862933555777941757"
  shows "a ^ (2 ^ 32) mod 2 ^ 64 = 7509239954682150913"
proof -
  have p0: "a ^ (2 ^ 0) mod 2 ^ 64 = 2862933555777941757" by (simp add: a)
  have p1: "a ^ (2 ^ 1) mod 2 ^ 64 = 4657504019466213897" using sq_step[OF p0] by simp
  have p2: "a ^ (2 ^ 2) mod 2 ^ 64 = 10219403707702531153" using sq_step[OF p1] by simp
  have p3: "a ^ (2 ^ 3) mod 2 ^ 64 = 8261098208067535265" using sq_step[OF p2] by simp
  have p4: "a ^ (2 ^ 4) mod 2 ^ 64 = 16063245774175676225" using sq_step[OF p3] by simp
  have p5: "a ^ (2 ^ 5) mod 2 ^ 64 = 16842046147954925185" using sq_step[OF p4] by simp
  have p6: "a ^ (2 ^ 6) mod 2 ^ 64 = 3825023290209991937" using sq_step[OF p5] by simp
  have p7: "a ^ (2 ^ 7) mod 2 ^ 64 = 469216509527915009" using sq_step[OF p6] by simp
  have p8: "a ^ (2 ^ 8) mod 2 ^ 64 = 17059007906348135425" using sq_step[OF p7] by simp
  have p9: "a ^ (2 ^ 9) mod 2 ^ 64 = 15637556352828303361" using sq_step[OF p8] by simp
  have p10: "a ^ (2 ^ 10) mod 2 ^ 64 = 1101150820788326401" using sq_step[OF p9] by simp
  have p11: "a ^ (2 ^ 11) mod 2 ^ 64 = 17514920028421464065" using sq_step[OF p10] by simp
  have p12: "a ^ (2 ^ 12) mod 2 ^ 64 = 13708108836447928321" using sq_step[OF p11] by simp
  have p13: "a ^ (2 ^ 13) mod 2 ^ 64 = 17239423578042957825" using sq_step[OF p12] by simp
  have p14: "a ^ (2 ^ 14) mod 2 ^ 64 = 6338490547828490241" using sq_step[OF p13] by simp
  have p15: "a ^ (2 ^ 15) mod 2 ^ 64 = 13908710134839377921" using sq_step[OF p14] by simp
  have p16: "a ^ (2 ^ 16) mod 2 ^ 64 = 11529004481772781569" using sq_step[OF p15] by simp
  have p17: "a ^ (2 ^ 17) mod 2 ^ 64 = 9542619139351773185" using sq_step[OF p16] by simp
  have p18: "a ^ (2 ^ 18) mod 2 ^ 64 = 9194984127178211329" using sq_step[OF p17] by simp
  have p19: "a ^ (2 ^ 19) mod 2 ^ 64 = 157999483481751553" using sq_step[OF p18] by simp
  have p20: "a ^ (2 ^ 20) mod 2 ^ 64 = 5786786196730413057" using sq_step[OF p19] by simp
  have p21: "a ^ (2 ^ 21) mod 2 ^ 64 = 15009977238818914305" using sq_step[OF p20] by simp
  have p22: "a ^ (2 ^ 22) mod 2 ^ 64 = 6872085711651078145" using sq_step[OF p21] by simp
  have p23: "a ^ (2 ^ 23) mod 2 ^ 64 = 13386416727902912513" using sq_step[OF p22] by simp
  have p24: "a ^ (2 ^ 24) mod 2 ^ 64 = 6895070600499298305" using sq_step[OF p23] by simp
  have p25: "a ^ (2 ^ 25) mod 2 ^ 64 = 8066066074610696193" using sq_step[OF p24] by simp
  have p26: "a ^ (2 ^ 26) mod 2 ^ 64 = 11682575717379342337" using sq_step[OF p25] by simp
  have p27: "a ^ (2 ^ 27) mod 2 ^ 64 = 5566925707390484481" using sq_step[OF p26] by simp
  have p28: "a ^ (2 ^ 28) mod 2 ^ 64 = 13727924800146374657" using sq_step[OF p27] by simp
  have p29: "a ^ (2 ^ 29) mod 2 ^ 64 = 938654994335268865" using sq_step[OF p28] by simp
  have p30: "a ^ (2 ^ 30) mod 2 ^ 64 = 6488996007097925633" using sq_step[OF p29] by simp
  have p31: "a ^ (2 ^ 31) mod 2 ^ 64 = 12977992014195851265" using sq_step[OF p30] by simp
  have p32: "a ^ (2 ^ 32) mod 2 ^ 64 = 7509239954682150913" using sq_step[OF p31] by simp
  show ?thesis by (rule p32)
qed

definition stall :: "int \<Rightarrow> bool" where
  "stall k \<longleftrightarrow> drop_bit 33 k + 1 = 2 ^ 31"

lemma stall_range:
  assumes "stall k"
  shows "2 ^ 64 - 2 ^ 33 \<le> k"
proof -
  have "k div 2 ^ 33 = 2 ^ 31 - 1" using assms by (simp add: stall_def drop_bit_eq_div)
  then have "k = (2 ^ 31 - 1) * 2 ^ 33 + k mod 2 ^ 33" using div_mult_mod_eq[of k "2 ^ 33"] by simp
  moreover have "0 \<le> k mod 2 ^ 33" by simp
  ultimately show ?thesis by simp
qed

lemma key_diff:
  fixes a :: int
  assumes a: "a = 2862933555777941757"
  shows "((next_key ^^ Suc n) k - (next_key ^^ n) k) mod 2 ^ 64 = (a ^ n * (next_key k - k)) mod 2 ^ 64"
proof (induction n)
  case 0
  show ?case by simp
next
  case (Suc n)
  let ?K = "\<lambda>n. (next_key ^^ n) k"
  have "(?K (Suc (Suc n)) - ?K (Suc n)) mod 2 ^ 64
      = ((?K (Suc n) * a + 1) mod 2 ^ 64 - (?K n * a + 1) mod 2 ^ 64) mod 2 ^ 64"
    by (simp add: next_key_mod a)
  also have "\<dots> = ((?K (Suc n) * a + 1) - (?K n * a + 1)) mod 2 ^ 64"
    by (simp only: mod_diff_eq)
  also have "\<dots> = (a * (?K (Suc n) - ?K n)) mod 2 ^ 64"
    by (simp add: algebra_simps)
  also have "\<dots> = (a * ((?K (Suc n) - ?K n) mod 2 ^ 64)) mod 2 ^ 64"
    by (simp only: mod_mult_right_eq)
  also have "\<dots> = (a * ((a ^ n * (next_key k - k)) mod 2 ^ 64)) mod 2 ^ 64"
    by (simp only: Suc.IH)
  also have "\<dots> = (a * (a ^ n * (next_key k - k))) mod 2 ^ 64"
    by (simp only: mod_mult_right_eq)
  also have "\<dots> = (a ^ Suc n * (next_key k - k)) mod 2 ^ 64"
    by (simp add: mult.assoc)
  finally show ?case .
qed

lemma key_diff_odd: "odd (next_key k - k)"
proof -
  have "next_key k mod 2 = (k * 2862933555777941757 + 1) mod 2 ^ 64 mod 2"
    by (simp only: next_key_mod)
  also have "\<dots> = (k * 2862933555777941757 + 1) mod 2"
    by (rule mod_mod_cancel) simp
  finally have "even (next_key k) \<longleftrightarrow> even (k * 2862933555777941757 + 1)"
    by (simp only: even_iff_mod_2_eq_zero)
  then show ?thesis by simp
qed

lemma not_always_stall:
  "\<exists>n. \<not> stall ((next_key ^^ Suc n) k)"
proof (rule ccontr)
  assume "\<not> ?thesis"
  then have st: "\<And>n. stall ((next_key ^^ Suc n) k)" by blast
  define k1 where "k1 = next_key k"
  define m :: nat where "m = 2 ^ 32"
  define a :: int where "a = 2862933555777941757"
  let ?K = "\<lambda>n. (next_key ^^ n) k1"
  have K: "?K n = (next_key ^^ Suc n) k" for n by (simp add: k1_def funpow_swap1)
  have lo: "2 ^ 64 - 2 ^ 33 \<le> ?K n" for n using stall_range[OF st[of n]] K by simp
  have hi: "?K n < 2 ^ 64" for n using next_key_range(2) K by simp
  define D0 where "D0 = ?K 1 - ?K 0"
  define Dm where "Dm = ?K (Suc m) - ?K m"
  have D0: "- (2 ^ 33) < D0" "D0 < 2 ^ 33" using lo[of 0] lo[of 1] hi[of 0] hi[of 1] by (auto simp: D0_def)
  have Dm: "- (2 ^ 33) < Dm" "Dm < 2 ^ 33" using lo[of m] lo[of "Suc m"] hi[of m] hi[of "Suc m"]
    by (auto simp: Dm_def)
  have odd: "odd D0" using key_diff_odd[of k1] by (simp add: D0_def)
  have "Dm mod 2 ^ 64 = (a ^ m * D0) mod 2 ^ 64"
    using key_diff[of a m k1] by (simp add: a_def Dm_def D0_def)
  also have "\<dots> = ((a ^ m mod 2 ^ 64) * D0) mod 2 ^ 64" by (simp only: mod_mult_left_eq)
  also have "a ^ m mod 2 ^ 64 = 7509239954682150913" unfolding m_def by (rule mult_pow32) (simp add: a_def)
  finally have "Dm mod 2 ^ 64 = (7509239954682150913 * D0) mod 2 ^ 64" .
  then have "2 ^ 64 dvd Dm - 7509239954682150913 * D0" by (simp only: mod_eq_dvd_iff)
  then obtain t where t: "Dm - 7509239954682150913 * D0 = 2 ^ 64 * t" by (auto simp: dvd_def)
  define u :: int where "u = 437095293"
  have c: "(7509239954682150913::int) = 1 + 2 ^ 34 * u" by (simp add: u_def)
  define z where "z = u * D0 + 2 ^ 30 * t"
  have "Dm - D0 = 2 ^ 34 * z" using t unfolding c z_def by (simp add: algebra_simps)
  with D0 Dm have "- (2 ^ 34) < 2 ^ 34 * z" "2 ^ 34 * z < 2 ^ 34" by simp_all
  then have "z = 0" by simp
  then have "u * D0 = - (2 ^ 30 * t)" by (simp add: z_def)
  then have "even (u * D0)" by simp
  moreover have "odd u" by (simp add: u_def)
  ultimately show False using odd by simp
qed

definition esc :: "int \<Rightarrow> nat" where
  "esc k = (LEAST n. \<not> stall ((next_key ^^ Suc n) k))"

lemma esc_decreases:
  assumes "stall (next_key k)"
  shows "esc (next_key k) < esc k"
proof -
  have ex: "\<not> stall ((next_key ^^ Suc (esc k)) k)"
    unfolding esc_def using not_always_stall[of k] by (rule LeastI_ex)
  have "esc k \<noteq> 0" using ex assms by (cases "esc k = 0") auto
  then obtain n where n: "esc k = Suc n" by (cases "esc k") auto
  have "\<not> stall ((next_key ^^ Suc n) (next_key k))" using ex unfolding n by (simp add: funpow_swap1)
  then have "esc (next_key k) \<le> n" unfolding esc_def by (rule Least_le)
  with n show ?thesis by simp
qed

subsection \<open>Termination and range\<close>

lemma jump_loop_total:
  assumes "q = 0 \<or> dbl q" and "q < of_int N \<or> (0 \<le> b \<and> b < N)"
  shows "\<exists>p. jump_loop N b (Finite q) k = Some (Inr p) \<and> 0 \<le> p \<and> p < N"
proof -
  define R where "R = inv_image (less_than <*lex*> less_than) (\<lambda>(q::rat, k::int). (nat (N - \<lfloor>q\<rfloor>), esc k))"
  have wfR: "wf R" unfolding R_def by (intro wf_inv_image wf_lex_prod wf_less_than)
  have "\<forall>b. (fst x = 0 \<or> dbl (fst x)) \<and> (fst x < of_int N \<or> (0 \<le> b \<and> b < N)) \<longrightarrow>
     (\<exists>p. jump_loop N b (Finite (fst x)) (snd x) = Some (Inr p) \<and> 0 \<le> p \<and> p < N)" for x
  proof (induction x rule: wf_induct_rule[OF wfR])
    case (1 x)
    obtain q k where x: "x = (q, k)" by (cases x)
    show ?case unfolding x fst_conv snd_conv
    proof (intro allI impI, elim conjE)
      fix b
      assume q: "q = 0 \<or> dbl q" and b: "q < of_int N \<or> (0 \<le> b \<and> b < N)"
      have q0: "0 \<le> q" using q is53_ge1[of q] by (auto simp: dbl_def)
      show "\<exists>p. jump_loop N b (Finite q) k = Some (Inr p) \<and> 0 \<le> p \<and> p < N"
      proof (cases "q < of_int N")
        case False
        then have "jump_loop N b (Finite q) k = Some (Inr b)"
          by (subst jump_loop.simps) simp
        with b False show ?thesis by simp
      next
        case True
        let ?b = "\<lfloor>q\<rfloor>" and ?k = "next_key k"
        have ib: "int_of_rat q = ?b" using q0 by (simp add: int_of_rat_def)
        have b0: "0 \<le> ?b" using q0 by simp
        have bN: "?b < N" using True by (simp add: floor_less_iff)
        note xr = divisor_range[OF next_key_range, of k]
        from next_j_step[OF q xr] obtain j' where
          j': "next_j ?b ?k = Some (Inr j')" 
          "j' = Inf \<or> (\<exists>q'. j' = Finite q' \<and> dbl q' \<and> ?b \<le> \<lfloor>q'\<rfloor> \<and>
              (drop_bit 33 ?k + 1 < 2 ^ 31 \<longrightarrow> ?b < \<lfloor>q'\<rfloor>))" by blast
        have unf: "jump_loop N b (Finite q) k = jump_loop N ?b j' ?k"
          by (subst jump_loop.simps) (simp add: True ib j'(1) Let_def)
        from j'(2) show ?thesis
        proof
          assume "j' = Inf"
          then have "jump_loop N ?b j' ?k = Some (Inr ?b)" by (subst jump_loop.simps) simp
          with unf b0 bN show ?thesis by simp
        next
          assume "\<exists>q'. j' = Finite q' \<and> dbl q' \<and> ?b \<le> \<lfloor>q'\<rfloor> \<and>
              (drop_bit 33 ?k + 1 < 2 ^ 31 \<longrightarrow> ?b < \<lfloor>q'\<rfloor>)"
          then obtain q' where q': "j' = Finite q'" "dbl q'" "?b \<le> \<lfloor>q'\<rfloor>"
              "drop_bit 33 ?k + 1 < 2 ^ 31 \<longrightarrow> ?b < \<lfloor>q'\<rfloor>" by blast
          have "((q', ?k), (q, k)) \<in> R"
          proof (cases "?b < \<lfloor>q'\<rfloor>")
            case True
            then have "nat (N - \<lfloor>q'\<rfloor>) < nat (N - ?b)" using bN by simp
            then show ?thesis by (simp add: R_def)
          next
            case False
            with q'(3) have eq: "\<lfloor>q'\<rfloor> = ?b" by simp
            from False q'(4) xr(2) have "drop_bit 33 ?k + 1 = 2 ^ 31" by simp
            then have "stall ?k" by (simp add: stall_def)
            then have "esc ?k < esc k" by (rule esc_decreases)
            then show ?thesis by (simp add: R_def eq)
          qed
          from 1[OF this[folded x]] q'(2) b0 bN
          have "\<exists>p. jump_loop N ?b (Finite q') ?k = Some (Inr p) \<and> 0 \<le> p \<and> p < N"
            by simp
          with unf q'(1) show ?thesis by simp
        qed
      qed
    qed
  qed
  from this[of "(q, k)"] assms show ?thesis by auto
qed

lemma hash_range:
  assumes "1 \<le> partitions"
  shows "\<exists>p. hash_key_to_partition sha1 key partitions = Some (Inr p) \<and> 0 \<le> p \<and> p < partitions"
proof -
  have "(0::rat) < of_int partitions" using assms by simp
  then have "\<exists>p. jump_loop partitions (- 1) (Finite 0) (int_from_bytes_little (sha1 key)) = Some (Inr p)
      \<and> 0 \<le> p \<and> p < partitions"
    by (intro jump_loop_total) auto
  then show ?thesis using assms by (simp add: hash_key_to_partition_def Let_def)
qed

lemma hash_invalid: "partitions < 1 \<Longrightarrow> hash_key_to_partition sha1 key partitions = Some (Inl ValueError)"
  by (simp add: hash_key_to_partition_def raise_def Let_def)

section \<open>Basic facts about the operations\<close>

lemma bnd_ret [simp]: "bnd (ret x) f = f x"
  by (simp add: bnd_def ret_def)

lemma bnd_raise [simp]: "bnd (raise e) f = raise e"
  by (simp add: bnd_def raise_def)

lemma bnd_None [simp]: "bnd None f = None"
  by (simp add: bnd_def)

lemma bnd_Some_Inr [simp]: "bnd (Some (Inr x)) f = f x"
  by (simp add: bnd_def)

lemma bnd_Some_Inl [simp]: "bnd (Some (Inl e)) f = Some (Inl e)"
  by (simp add: bnd_def)

lemma ret_neq [simp]: "ret x \<noteq> raise e" "raise e \<noteq> ret x" "ret x \<noteq> None" "raise e \<noteq> None"
  "(ret x = ret y) = (x = y)" "(ret x = Some (Inr y)) = (x = y)" "(Some (Inr y) = ret x) = (y = x)"
  "ret x \<noteq> Some (Inl e)" "raise e \<noteq> Some (Inr x)"
  by (auto simp: ret_def raise_def)

lemma db_get_put_same [simp]: "db_get k (db_put k v d) = Some v"
  by (induction d) (auto simp: db_get_def)

lemma db_get_put_other [simp]: "k' \<noteq> k \<Longrightarrow> db_get k' (db_put k v d) = db_get k' d"
  by (induction d) (auto simp: db_get_def)

lemma valid_key_nonempty: "valid_key k \<Longrightarrow> k \<noteq> []"
  by (auto simp: valid_key_def)

lemma txn_put_valid [simp]: "valid_key k \<Longrightarrow> txn_put k v d = ret (db_put k v d)"
  by (simp add: txn_put_def)

lemma txn_put_invalid [simp]: "\<not> valid_key k \<Longrightarrow> txn_put k v d = raise BadValsizeError"
  by (simp add: txn_put_def)

lemma txn_get_nonempty [simp]: "k \<noteq> [] \<Longrightarrow> txn_get k d = ret (db_get k d)"
  by (simp add: txn_get_def)

lemma txn_put_returns: "txn_put k v d = Some (Inr d') \<Longrightarrow> valid_key k \<and> d' = db_put k v d"
  by (auto simp: txn_put_def ret_def raise_def split: if_splits)

lemma txn_get_returns: "txn_get k d = Some (Inr r) \<Longrightarrow> k \<noteq> [] \<and> r = db_get k d"
  by (auto simp: txn_get_def ret_def raise_def split: if_splits)

lemma fs_update_env [simp]: "fs (update_env e d s) = (fs s)(e := d)"
  by (simp add: update_env_def)

lemma serialize_Some: "pickle_dumps L x = Some b \<Longrightarrow> serialize L x = ret b"
  by (simp add: serialize_def)

lemma deserialize_Some: "pickle_loads L b = Some x \<Longrightarrow> deserialize L b = ret x"
  by (simp add: deserialize_def)

lemma put_then_get:
  assumes "1 \<le> t_partitions T"
    and "pickle_dumps L k = Some k_bytes" and "valid_key k_bytes"
    and "pickle_dumps L v = Some v_bytes" and "pickle_loads L v_bytes = Some v"
  shows "\<exists>s'. put L T k v True s = Some (Inr (True, s')) \<and> get L T k True s' = Some (Inr v)"
proof -
  from hash_range[OF assms(1), of "sha1_digest L" k_bytes] obtain p where
    p: "hash_key_to_partition (sha1_digest L) k_bytes (t_partitions T) = Some (Inr p)" by blast
  let ?env = "env_for_partition T p"
  let ?s' = "update_env ?env (db_put k_bytes v_bytes (fs s ?env)) s"
  note ne = valid_key_nonempty[OF assms(3)]
  have "put L T k v True s = Some (Inr (True, ?s'))"
    by (simp add: put_def kv_to_bytes_def to_bytes_def serialize_Some assms p Let_def ret_def)
  moreover have "get L T k True ?s' = Some (Inr v)"
    by (simp add: get_def to_bytes_def from_bytes_def serialize_Some deserialize_Some assms p ne ret_def)
  ultimately show ?thesis by blast
qed

text \<open>A key that LMDB does not store: \<open>put\<close> raises, whatever the table holds.\<close>

lemma put_invalid_key:
  assumes "1 \<le> t_partitions T"
    and "pickle_dumps L k = Some k_bytes" and "\<not> valid_key k_bytes"
    and "pickle_dumps L v = Some v_bytes"
  shows "put L T k v True s = Some (Inl BadValsizeError)"
proof -
  from hash_range[OF assms(1), of "sha1_digest L" k_bytes] obtain p where
    p: "hash_key_to_partition (sha1_digest L) k_bytes (t_partitions T) = Some (Inr p)" by blast
  show ?thesis
    by (simp add: put_def kv_to_bytes_def to_bytes_def serialize_Some assms p Let_def raise_def)
qed

lemma bnd_eq_Some_InrE:
  assumes "bnd m f = Some (Inr y)"
  obtains x where "m = Some (Inr x)" "f x = Some (Inr y)"
  using assms by (auto simp: bnd_def split: option.splits sum.splits)

text \<open>What a returning \<open>put_if_absent\<close> leaves behind: the key is present afterwards.\<close>

lemma put_if_absent_present:
  assumes "put_if_absent L T k v use_serialize s = Some (Inr (old, s1))"
  obtains k_bytes p b where
    "to_bytes L use_serialize k = Some (Inr k_bytes)"
    "hash_key_to_partition (sha1_digest L) k_bytes (t_partitions T) = Some (Inr p)"
    "k_bytes \<noteq> []"
    "db_get k_bytes (fs s1 (env_for_partition T p)) = Some b"
    "db_get k_bytes (fs s (env_for_partition T p)) = None \<Longrightarrow> to_bytes L use_serialize v = Some (Inr b)"
    "db_get k_bytes (fs s (env_for_partition T p)) \<noteq> None \<Longrightarrow> s1 = s"
proof -
  from assms obtain k_bytes where kb: "to_bytes L use_serialize k = Some (Inr k_bytes)"
    and r1: "bnd (hash_key_to_partition (sha1_digest L) k_bytes (t_partitions T)) (\<lambda>p.
     let env = env_for_partition T p
     in bnd (txn_get k_bytes (fs s env)) (\<lambda>old_value_bytes.
        case old_value_bytes of
          None \<Rightarrow>
            bnd (to_bytes L use_serialize v) (\<lambda>v_bytes.
            bnd (txn_put k_bytes v_bytes (fs s env)) (\<lambda>d.
            ret (PyNone, update_env env d s)))
        | Some b \<Rightarrow>
            bnd (from_bytes L use_serialize b) (\<lambda>old. ret (old, s)))) = Some (Inr (old, s1))"
    unfolding put_if_absent_def by (erule bnd_eq_Some_InrE)
  from r1 obtain p where p: "hash_key_to_partition (sha1_digest L) k_bytes (t_partitions T) = Some (Inr p)"
    and r2: "bnd (txn_get k_bytes (fs s (env_for_partition T p))) (\<lambda>old_value_bytes.
        case old_value_bytes of
          None \<Rightarrow>
            bnd (to_bytes L use_serialize v) (\<lambda>v_bytes.
            bnd (txn_put k_bytes v_bytes (fs s (env_for_partition T p))) (\<lambda>d.
            ret (PyNone, update_env (env_for_partition T p) d s)))
        | Some b \<Rightarrow>
            bnd (from_bytes L use_serialize b) (\<lambda>old. ret (old, s))) = Some (Inr (old, s1))"
    by (auto elim!: bnd_eq_Some_InrE simp: Let_def)
  from r2 obtain r where g: "txn_get k_bytes (fs s (env_for_partition T p)) = Some (Inr r)"
    and r3: "(case r of
          None \<Rightarrow>
            bnd (to_bytes L use_serialize v) (\<lambda>v_bytes.
            bnd (txn_put k_bytes v_bytes (fs s (env_for_partition T p))) (\<lambda>d.
            ret (PyNone, update_env (env_for_partition T p) d s)))
        | Some b \<Rightarrow>
            bnd (from_bytes L use_serialize b) (\<lambda>old. ret (old, s))) = Some (Inr (old, s1))"
    by (rule bnd_eq_Some_InrE)
  from txn_get_returns[OF g] have ne: "k_bytes \<noteq> []"
    and r: "r = db_get k_bytes (fs s (env_for_partition T p))" by simp_all
  show ?thesis
  proof (cases "db_get k_bytes (fs s (env_for_partition T p))")
    case None
    with r3 r obtain v_bytes d where vb: "to_bytes L use_serialize v = Some (Inr v_bytes)"
      and d: "txn_put k_bytes v_bytes (fs s (env_for_partition T p)) = Some (Inr d)"
      and s1: "s1 = update_env (env_for_partition T p) d s"
      by (auto elim!: bnd_eq_Some_InrE)
    from txn_put_returns[OF d] have "d = db_put k_bytes v_bytes (fs s (env_for_partition T p))" by simp
    then have "db_get k_bytes (fs s1 (env_for_partition T p)) = Some v_bytes" by (simp add: s1)
    show ?thesis
      by (rule that[of k_bytes p v_bytes]) (use kb p ne vb None \<open>db_get k_bytes (fs s1 (env_for_partition T p)) = Some v_bytes\<close> in auto)
  next
    case (Some b)
    with r3 r have "s1 = s" by (auto elim!: bnd_eq_Some_InrE)
    show ?thesis
      by (rule that[of k_bytes p b]) (use kb p ne Some \<open>s1 = s\<close> in auto)
  qed
qed

lemma tbl: "table L name namespace n persistent s =
     bnd (put_if_absent L meta_table (PyStr (table_key (if persistent then StoreType_LMDB else StoreType_IN_MEMORY) namespace name)) (PyInt n) True s) (\<lambda>xs.
         bnd (get L meta_table (PyStr (table_key (if persistent then StoreType_LMDB else StoreType_IN_MEMORY) namespace name)) True (snd xs)) (\<lambda>registered.
         case registered of
           PyInt m \<Rightarrow> ret (\<lparr>t_type = (if persistent then StoreType_LMDB else StoreType_IN_MEMORY), t_namespace = namespace, t_name = name, t_partitions = m\<rparr>, snd xs)
         | _ \<Rightarrow> raise TypeError))"
  unfolding table_def Let_def case_prod_unfold ..

lemma table_returns:
  assumes "table L name namespace n persistent s = Some (Inr (T, s1))"
  obtains k_bytes p b where
    "pickle_dumps L (PyStr (table_key (t_type T) namespace name)) = Some k_bytes"
    "hash_key_to_partition (sha1_digest L) k_bytes 10 = Some (Inr p)"
    "k_bytes \<noteq> []"
    "db_get k_bytes (fs s1 (env_for_partition meta_table p)) = Some b"
    "pickle_loads L b = Some (PyInt (t_partitions T))"
    "db_get k_bytes (fs s (env_for_partition meta_table p)) = None \<Longrightarrow> pickle_dumps L (PyInt n) = Some b"
    "t_type T = (if persistent then StoreType_LMDB else StoreType_IN_MEMORY)"
    "t_namespace T = namespace" "t_name T = name"
proof -
  define ty where "ty = (if persistent then StoreType_LMDB else StoreType_IN_MEMORY)"
  define key where "key = PyStr (table_key ty namespace name)"
  note tbl' = tbl[of L name namespace n persistent s, folded ty_def, folded key_def]
  from assms[unfolded tbl'] obtain xs where pia0: "put_if_absent L meta_table key (PyInt n) True s = Some (Inr xs)"
    and r1: "bnd (get L meta_table key True (snd xs)) (\<lambda>registered.
         case registered of
           PyInt m \<Rightarrow> ret (\<lparr>t_type = ty, t_namespace = namespace, t_name = name, t_partitions = m\<rparr>, snd xs)
         | _ \<Rightarrow> raise TypeError) = Some (Inr (T, s1))"
    by (rule bnd_eq_Some_InrE)
  obtain x s' where xs: "xs = (x, s')" by (cases xs)
  note pia = pia0[unfolded xs]
  from r1[unfolded xs snd_conv] obtain reg where g: "get L meta_table key True s' = Some (Inr reg)"
    and r2: "(case reg of
           PyInt m \<Rightarrow> ret (\<lparr>t_type = ty, t_namespace = namespace, t_name = name, t_partitions = m\<rparr>, s')
         | _ \<Rightarrow> raise TypeError) = Some (Inr (T, s1))"
    by (rule bnd_eq_Some_InrE)
  from r2 obtain m where reg: "reg = PyInt m" 
    and T: "T = \<lparr>t_type = ty, t_namespace = namespace, t_name = name, t_partitions = m\<rparr>" and s1: "s1 = s'"
    by (cases reg) (simp_all add: raise_def ret_def)
  from pia show ?thesis
  proof (rule put_if_absent_present)
  fix k_bytes p b
  assume kb: "to_bytes L True key = Some (Inr k_bytes)"
    and p: "hash_key_to_partition (sha1_digest L) k_bytes (t_partitions meta_table) = Some (Inr p)"
    and ne: "k_bytes \<noteq> []"
    and b: "db_get k_bytes (fs s' (env_for_partition meta_table p)) = Some b"
    and fresh: "db_get k_bytes (fs s (env_for_partition meta_table p)) = None \<Longrightarrow> to_bytes L True (PyInt n) = Some (Inr b)"
  have to_bytes_D: "pickle_dumps L x = Some y" if "to_bytes L True x = Some (Inr y)" for x y
    using that by (cases "pickle_dumps L x") (simp_all add: to_bytes_def serialize_def raise_def ret_def)
  have kb': "pickle_dumps L key = Some k_bytes" using kb by (rule to_bytes_D)
  have "get L meta_table key True s' = from_bytes L True b"
    by (simp add: get_def kb p b ne)
  with g have "deserialize L b = Some (Inr (PyInt m))" by (simp add: from_bytes_def reg)
  then have lb: "pickle_loads L b = Some (PyInt m)"
    by (cases "pickle_loads L b") (simp_all add: deserialize_def raise_def ret_def)
  have f': "pickle_dumps L (PyInt n) = Some b" if "db_get k_bytes (fs s (env_for_partition meta_table p)) = None"
    using fresh[OF that] by (rule to_bytes_D)
  have p': "hash_key_to_partition (sha1_digest L) k_bytes 10 = Some (Inr p)"
    using p by (simp add: meta_table_def)
  have tT: "t_type T = ty" "t_namespace T = namespace" "t_name T = name" "t_partitions T = m"
    by (simp_all add: T)
  show ?thesis
  proof (rule that[of k_bytes p b])
    show "pickle_dumps L (PyStr (table_key (t_type T) namespace name)) = Some k_bytes"
      using kb' by (simp only: tT key_def)
    show "hash_key_to_partition (sha1_digest L) k_bytes 10 = Some (Inr p)" by (rule p')
    show "k_bytes \<noteq> []" by (rule ne)
    show "db_get k_bytes (fs s1 (env_for_partition meta_table p)) = Some b" using b by (simp only: s1)
    show "pickle_loads L b = Some (PyInt (t_partitions T))" using lb by (simp only: tT)
    show "pickle_dumps L (PyInt n) = Some b" if "db_get k_bytes (fs s (env_for_partition meta_table p)) = None"
      using that by (rule f')
    show "t_type T = (if persistent then StoreType_LMDB else StoreType_IN_MEMORY)"
      by (simp only: tT ty_def)
    show "t_namespace T = namespace" "t_name T = name" by (rule tT)+
  qed
  qed
qed

lemma table_again:
  assumes "table L name namespace n persistent s = Some (Inr (T, s1))"
  shows "table L name namespace m persistent s1 = Some (Inr (T, s1))"
  using assms
proof (rule table_returns)
  fix k_bytes p b
  assume kb: "pickle_dumps L (PyStr (table_key (t_type T) namespace name)) = Some k_bytes"
    and p: "hash_key_to_partition (sha1_digest L) k_bytes 10 = Some (Inr p)"
    and ne: "k_bytes \<noteq> []"
    and b: "db_get k_bytes (fs s1 (env_for_partition meta_table p)) = Some b"
    and lb: "pickle_loads L b = Some (PyInt (t_partitions T))"
    and ty: "t_type T = (if persistent then StoreType_LMDB else StoreType_IN_MEMORY)"
    and ns: "t_namespace T = namespace" "t_name T = name"
  have p': "hash_key_to_partition (sha1_digest L) k_bytes (t_partitions meta_table) = Some (Inr p)"
    using p by (simp add: meta_table_def)
  let ?key = "PyStr (table_key (t_type T) namespace name)"
  have 1: "put_if_absent L meta_table ?key (PyInt m) True s1 = ret (PyInt (t_partitions T), s1)"
    by (simp add: put_if_absent_def to_bytes_def from_bytes_def serialize_Some deserialize_Some kb p' b lb ne)
  have 2: "get L meta_table ?key True s1 = ret (PyInt (t_partitions T))"
    by (simp add: get_def to_bytes_def from_bytes_def serialize_Some deserialize_Some kb p' b lb ne)
  have "table L name namespace m persistent s1
      = ret (\<lparr>t_type = t_type T, t_namespace = namespace, t_name = name, t_partitions = t_partitions T\<rparr>, s1)"
    unfolding tbl ty[symmetric] by (simp add: 1 2)
  also have "\<lparr>t_type = t_type T, t_namespace = namespace, t_name = name, t_partitions = t_partitions T\<rparr> = T"
    using ns by simp
  finally show ?thesis by (simp add: ret_def)
qed

lemma table_first_state:
  assumes kb: "pickle_dumps L (PyStr (table_key (if persistent then StoreType_LMDB else StoreType_IN_MEMORY) namespace name)) = Some k_bytes"
    and vk: "valid_key k_bytes"
    and vb: "pickle_dumps L (PyInt n) = Some v_bytes" and lv: "pickle_loads L v_bytes = Some (PyInt n)"
    and fresh: "\<And>p. db_get k_bytes (fs s (env_for_partition meta_table p)) = None"
  shows "\<exists>p. table L name namespace n persistent s
     = Some (Inr (\<lparr>t_type = (if persistent then StoreType_LMDB else StoreType_IN_MEMORY),
           t_namespace = namespace, t_name = name, t_partitions = n\<rparr>,
         update_env (env_for_partition meta_table p)
           (db_put k_bytes v_bytes (fs s (env_for_partition meta_table p))) s))"
proof -
  have "(1::int) \<le> t_partitions meta_table" by (simp add: meta_table_def)
  from hash_range[OF this, of "sha1_digest L" k_bytes] obtain p where
    p: "hash_key_to_partition (sha1_digest L) k_bytes (t_partitions meta_table) = Some (Inr p)" by blast
  note ne = valid_key_nonempty[OF vk]
  let ?ty = "if persistent then StoreType_LMDB else StoreType_IN_MEMORY"
  let ?key = "PyStr (table_key ?ty namespace name)"
  let ?env = "env_for_partition meta_table p"
  let ?s1 = "update_env ?env (db_put k_bytes v_bytes (fs s ?env)) s"
  have 1: "put_if_absent L meta_table ?key (PyInt n) True s = ret (PyNone, ?s1)"
    by (simp add: put_if_absent_def to_bytes_def serialize_Some kb vb p fresh Let_def ne vk)
  have 2: "get L meta_table ?key True ?s1 = ret (PyInt n)"
    by (simp add: get_def to_bytes_def from_bytes_def serialize_Some deserialize_Some kb p lv ne)
  have "table L name namespace n persistent s
      = ret (\<lparr>t_type = ?ty, t_namespace = namespace, t_name = name, t_partitions = n\<rparr>, ?s1)"
    unfolding tbl by (simp add: 1 2)
  then show ?thesis by (auto simp: ret_def)
qed

text \<open>A registry key that LMDB does not store: the first \<open>table\<close> call for it raises.\<close>

lemma table_invalid_key:
  assumes kb: "pickle_dumps L (PyStr (table_key (if persistent then StoreType_LMDB else StoreType_IN_MEMORY) namespace name)) = Some k_bytes"
    and vk: "\<not> valid_key k_bytes"
    and vb: "pickle_dumps L (PyInt n) = Some v_bytes"
    and fresh: "\<And>p. db_get k_bytes (fs s (env_for_partition meta_table p)) = None"
  shows "table L name namespace n persistent s = Some (Inl BadValsizeError)"
proof -
  have "(1::int) \<le> t_partitions meta_table" by (simp add: meta_table_def)
  from hash_range[OF this, of "sha1_digest L" k_bytes] obtain p where
    p: "hash_key_to_partition (sha1_digest L) k_bytes (t_partitions meta_table) = Some (Inr p)" by blast
  let ?key = "PyStr (table_key (if persistent then StoreType_LMDB else StoreType_IN_MEMORY) namespace name)"
  have g: "txn_get k_bytes (fs s (env_for_partition meta_table p))
      = (if k_bytes = [] then raise BadValsizeError else ret None)"
    by (simp add: txn_get_def fresh)
  have "put_if_absent L meta_table ?key (PyInt n) True s = raise BadValsizeError"
    by (simp add: put_if_absent_def to_bytes_def serialize_Some kb vb p g Let_def vk)
  then show ?thesis unfolding tbl by (simp add: raise_def)
qed

lemma round53_pow31: "round53 2147483648 = 2147483648"
  using int_exact[of "2 ^ 31"] by simp

lemma hash_zero_digest:
  assumes "int_from_bytes_little (sha1 key) = 0" "1 \<le> N" "N \<le> 2 ^ 31"
  shows "hash_key_to_partition sha1 key N = Some (Inr 0)"
proof -
  have nk: "next_key 0 = 1" by (simp add: next_key_mod)
  have f1: "float_of_int 1 = Inr 1" using int_exact[of 1] by (simp add: float_of_int_def)
  have "float_mul 1 (float_div (2 ^ 31) 1) = Finite (2 ^ 31)"
    by (simp add: float_mul_def float_div_def round53_pow31)
  then have nj: "next_j 0 1 = ret (Finite (2 ^ 31))"
    by (simp add: next_j_def f1 drop_bit_eq_div)
  have N: "0 < N" "\<not> 2147483648 < N" using assms(2,3) by simp_all
  have "jump_loop N 0 (Finite (2 ^ 31)) 1 = Some (Inr 0)"
    by (subst jump_loop.simps) (simp add: N)
  then have "jump_loop N (- 1) (Finite 0) 0 = Some (Inr 0)"
    by (subst jump_loop.simps) (simp add: N int_of_rat_def nk nj ret_def)
  then show ?thesis using assms(1,2) by (simp add: hash_key_to_partition_def)
qed

lemma int_from_zero_bytes [simp]: "int_from_bytes_little (replicate n 0) = 0"
  by (induction n) simp_all

lemma hash_test_libs [simp]:
  "1 \<le> N \<Longrightarrow> N \<le> 2 ^ 31 \<Longrightarrow> hash_key_to_partition (sha1_digest test_libs) key N = Some (Inr 0)"
  by (rule hash_zero_digest) (simp_all add: test_libs_def)

lemmas test_eval = tbl put_if_absent_def get_def put_def to_bytes_def from_bytes_def kv_to_bytes_def
  serialize_def deserialize_def meta_table_def env_for_partition_def table_key_def
  StoreType_LMDB_def StoreType_IN_MEMORY_def empty_engine_def db_get_def update_env_def
  txn_put_def txn_get_def valid_key_def max_key_size_def

lemma test_libs_sel [simp]:
  "pickle_dumps test_libs = test_dumps" "pickle_loads test_libs = test_loads"
  "uuid1 test_libs = (\<lambda>n. replicate (Suc n) CHR ''u'')"
  "random_sample test_libs = (\<lambda>seed i. if even (seed + int i) then 1 / 4 else 3 / 4)"
  "os_urandom test_libs = int"
  by (simp_all add: test_libs_def)

section \<open>Bulk ingest: the transactions of put_all\<close>

lemma set_py_range [simp]: "p \<in> set (py_range n) \<longleftrightarrow> 0 \<le> p \<and> p < n"
  by (auto simp: py_range_def image_iff intro: bexI[of _ "nat p"])

lemma dom_begin_all [simp]: "dom (begin_all T s ps) = set ps"
  by (induction ps) (auto simp: dom_def)

lemma to_bytes_not_None [simp]: "to_bytes L use_serialize x \<noteq> None"
  by (simp add: to_bytes_def serialize_def raise_def ret_def split: option.splits)

lemma kv_to_bytes_cases:
  obtains e where "kv_to_bytes L use_serialize k v = Some (Inl e)"
  | k_bytes v_bytes where "kv_to_bytes L use_serialize k v = Some (Inr (k_bytes, v_bytes))"
proof -
  have "kv_to_bytes L use_serialize k v \<noteq> None"
    by (auto simp: kv_to_bytes_def bnd_def ret_def split: option.splits sum.splits)
  then obtain r where r: "kv_to_bytes L use_serialize k v = Some r" by blast
  show ?thesis
  proof (cases r)
    case (Inl e)
    with r that(1) show ?thesis by simp
  next
    case (Inr x)
    obtain a b where "x = (a, b)" by (cases x)
    with r Inr that(2) show ?thesis by simp
  qed
qed

lemma hash_cases:
  obtains "partitions < 1" "hash_key_to_partition sha1 key partitions = Some (Inl ValueError)"
  | p where "1 \<le> partitions" "0 \<le> p" "p < partitions" "hash_key_to_partition sha1 key partitions = Some (Inr p)"
  using hash_range[of partitions sha1 key] hash_invalid[of partitions sha1 key]
  by (cases "partitions < 1") auto

text \<open>What the try block of \<open>put_all\<close> does with one pair, all transactions being open.\<close>

lemma try_put_cases:
  assumes "dom txn_map = set (py_range (t_partitions T))"
  obtains e where "try_put L T use_serialize k v True txn_map events = Some (Inl e)"
      "entry_raises L T use_serialize (k, v)"
  | k_bytes v_bytes p d where
      "try_put L T use_serialize k v True txn_map events
         = Some (Inr (True, txn_map(p \<mapsto> db_put k_bytes v_bytes d), events @ [Put p k_bytes v_bytes]))"
      "\<not> entry_raises L T use_serialize (k, v)" "txn_map p = Some d" "valid_key k_bytes"
      "hash_key_to_partition (sha1_digest L) k_bytes (t_partitions T) = Some (Inr p)"
proof (cases rule: kv_to_bytes_cases[of L use_serialize k v])
  case (1 e)
  with that(1) show ?thesis by (simp add: entry_raises_def try_put_def)
next
  case kv: (2 k_bytes v_bytes)
  show ?thesis
  proof (cases rule: hash_cases[of "t_partitions T" "sha1_digest L" k_bytes])
    case 1
    with kv that(1) show ?thesis by (simp add: entry_raises_def try_put_def)
  next
    case h: (2 p)
    from h(2,3) assms have "p \<in> dom txn_map" by simp
    then obtain d where d: "txn_map p = Some d" by blast
    show ?thesis
    proof (cases "valid_key k_bytes")
      case True
      have 1: "try_put L T use_serialize k v True txn_map events
            = Some (Inr (True, txn_map(p \<mapsto> db_put k_bytes v_bytes d), events @ [Put p k_bytes v_bytes]))"
        by (simp add: try_put_def kv h(4) d True ret_def)
      have 2: "\<not> entry_raises L T use_serialize (k, v)"
        by (simp add: entry_raises_def kv h(4) True ret_def)
      from that(2)[OF 1 2 d True h(4)] show ?thesis .
    next
      case False
      have 1: "try_put L T use_serialize k v True txn_map events = Some (Inl BadValsizeError)"
        by (simp add: try_put_def kv h(4) d False raise_def)
      have 2: "entry_raises L T use_serialize (k, v)"
        by (simp add: entry_raises_def kv h(4) False raise_def)
      from that(1)[OF 1 2] show ?thesis .
    qed
  qed
qed

text \<open>
  \<open>put_all\<close> on an iterable that yields pairs and does not raise: it returns, with a commit
  on every partition when no pair raised in the try block and an abort on every partition,
  the engine unchanged, when one did.
\<close>

definition pair_item :: "pyobj \<times> pyobj \<Rightarrow> pyobj" where
  "pair_item kv = PyTuple [fst kv, snd kv]"

lemma unpack_pair_item [simp]: "unpack_pair (pair_item kv) = ret kv"
  by (simp add: pair_item_def)

lemma put_all_loop_result:
  assumes "dom txn_map = set (py_range (t_partitions T))"
  shows "\<exists>txn_map' puts.
     put_all_loop L T use_serialize (map pair_item kv_list) None True txn_map events
       = Some (Inr (\<not> (\<exists>kv\<in>set kv_list. entry_raises L T use_serialize kv)), txn_map', events @ puts) \<and>
     (\<forall>e\<in>set puts. \<exists>p k v. e = Put p k v)"
  using assms
proof (induction kv_list arbitrary: txn_map events)
  case Nil
  show ?case by simp
next
  case (Cons kv kv_list)
  obtain k v where kv: "kv = (k, v)" by (cases kv)
  show ?case
  proof (cases rule: try_put_cases[OF Cons.prems, of L use_serialize k v events])
    case (1 e)
    then show ?thesis by (intro exI[of _ txn_map] exI[of _ "[]"]) (simp add: kv ret_def)
  next
    case (2 k_bytes v_bytes p d)
    let ?m = "txn_map(p \<mapsto> db_put k_bytes v_bytes d)"
    from 2(3) have "p \<in> dom txn_map" by blast
    then have "dom ?m = set (py_range (t_partitions T))" using Cons.prems by auto
    from Cons.IH[OF this, of "events @ [Put p k_bytes v_bytes]"] obtain txn_map' puts where
      r: "put_all_loop L T use_serialize (map pair_item kv_list) None True ?m (events @ [Put p k_bytes v_bytes])
       = Some (Inr (\<not> (\<exists>kv\<in>set kv_list. entry_raises L T use_serialize kv)), txn_map', (events @ [Put p k_bytes v_bytes]) @ puts)"
      and puts: "\<forall>e\<in>set puts. \<exists>p k v. e = Put p k v" by blast
    have "put_all_loop L T use_serialize (map pair_item ((k, v) # kv_list)) None True txn_map events
       = Some (Inr (\<not> (\<exists>kv\<in>set ((k, v) # kv_list). entry_raises L T use_serialize kv)), txn_map', events @ (Put p k_bytes v_bytes # puts))"
      using 2(1,2) r by (simp add: ret_def)
    moreover have "\<forall>e\<in>set (Put p k_bytes v_bytes # puts). \<exists>p k v. e = Put p k v" using puts by simp
    ultimately show ?thesis unfolding kv by blast
  qed
qed

lemma put_all_result:
  "\<exists>events s'. put_all L T (map pair_item kv_list, None) use_serialize s = Some (events, Inr s') \<and>
     (\<exists>puts. (\<forall>e\<in>set puts. \<exists>p k v. e = Put p k v) \<and>
        events = map Begin (py_range (t_partitions T)) @ puts @
          (if \<exists>kv\<in>set kv_list. entry_raises L T use_serialize kv
           then map Abort (py_range (t_partitions T)) else map Commit (py_range (t_partitions T)))) \<and>
     ((\<exists>kv\<in>set kv_list. entry_raises L T use_serialize kv) \<longrightarrow> s' = s)"
proof -
  let ?ps = "py_range (t_partitions T)"
  from put_all_loop_result[of "begin_all T s ?ps" T L use_serialize kv_list "map Begin ?ps"]
  obtain txn_map' puts where
    r: "put_all_loop L T use_serialize (map pair_item kv_list) None True (begin_all T s ?ps) (map Begin ?ps)
       = Some (Inr (\<not> (\<exists>kv\<in>set kv_list. entry_raises L T use_serialize kv)), txn_map', map Begin ?ps @ puts)"
    and puts: "\<forall>e\<in>set puts. \<exists>p k v. e = Put p k v" by auto
  show ?thesis
  proof (cases "\<exists>kv\<in>set kv_list. entry_raises L T use_serialize kv")
    case True
    then have "put_all L T (map pair_item kv_list, None) use_serialize s
        = Some (map Begin ?ps @ puts @ map Abort ?ps, Inr s)"
      using r by (simp add: put_all_def Let_def)
    with True puts show ?thesis by auto
  next
    case False
    then have "put_all L T (map pair_item kv_list, None) use_serialize s
        = Some (map Begin ?ps @ puts @ map Commit ?ps, Inr (commit_all T txn_map' ?ps s))"
      using r by (simp add: put_all_def Let_def)
    with False puts show ?thesis by auto
  qed
qed

text \<open>
  \<open>put_all\<close> on any iterable: it returns or raises; the calls on the transactions are the
  begins, then puts, and then nothing when it raises, and a commit on every partition or
  an abort on every partition when it returns.
\<close>

lemma unpack_pair_cases:
  obtains e where "unpack_pair item = Some (Inl e)"
  | k v where "unpack_pair item = Some (Inr (k, v))"
proof -
  have "unpack_pair item \<noteq> None"
    by (induction item rule: unpack_pair.induct) (simp_all add: ret_def raise_def)
  then obtain r where r: "unpack_pair item = Some r" by blast
  show ?thesis
  proof (cases r)
    case (Inl e)
    with r that(1) show ?thesis by simp
  next
    case (Inr x)
    obtain a b where "x = (a, b)" by (cases x)
    with r Inr that(2) show ?thesis by simp
  qed
qed

lemma put_all_loop_total:
  assumes "dom txn_map = set (py_range (t_partitions T))"
  shows "\<exists>r txn_map' puts.
     put_all_loop L T use_serialize items stop True txn_map events = Some (r, txn_map', events @ puts) \<and>
     (\<forall>e\<in>set puts. \<exists>p k v. e = Put p k v)"
  using assms
proof (induction items arbitrary: txn_map events)
  case Nil
  show ?case by (cases stop) simp_all
next
  case (Cons item items)
  show ?case
  proof (cases rule: unpack_pair_cases[of item])
    case (1 e)
    then show ?thesis by (intro exI[of _ "Inl e"] exI[of _ txn_map] exI[of _ "[]"]) simp
  next
    case u: (2 k v)
    show ?thesis
    proof (cases rule: try_put_cases[OF Cons.prems, of L use_serialize k v events])
      case (1 e)
      with u show ?thesis by (intro exI[of _ "Inr False"] exI[of _ txn_map] exI[of _ "[]"]) simp
    next
      case (2 k_bytes v_bytes p d)
      let ?m = "txn_map(p \<mapsto> db_put k_bytes v_bytes d)"
      from 2(3) have "p \<in> dom txn_map" by blast
      then have "dom ?m = set (py_range (t_partitions T))" using Cons.prems by auto
      from Cons.IH[OF this, of "events @ [Put p k_bytes v_bytes]"] obtain r txn_map' puts where
        r: "put_all_loop L T use_serialize items stop True ?m (events @ [Put p k_bytes v_bytes])
         = Some (r, txn_map', (events @ [Put p k_bytes v_bytes]) @ puts)"
        and puts: "\<forall>e\<in>set puts. \<exists>p k v. e = Put p k v" by blast
      have "put_all_loop L T use_serialize (item # items) stop True txn_map events
         = Some (r, txn_map', events @ (Put p k_bytes v_bytes # puts))"
        using u 2(1) r by simp
      moreover have "\<forall>e\<in>set (Put p k_bytes v_bytes # puts). \<exists>p k v. e = Put p k v" using puts by simp
      ultimately show ?thesis by blast
    qed
  qed
qed

lemma put_all_total:
  "\<exists>events r puts. put_all L T kv_list use_serialize s = Some (events, r) \<and>
     (\<forall>e\<in>set puts. \<exists>p k v. e = Put p k v) \<and>
     (case r of
        Inl e \<Rightarrow> events = map Begin (py_range (t_partitions T)) @ puts
      | Inr s' \<Rightarrow>
          events = map Begin (py_range (t_partitions T)) @ puts @ map Commit (py_range (t_partitions T)) \<or>
          events = map Begin (py_range (t_partitions T)) @ puts @ map Abort (py_range (t_partitions T)) \<and> s' = s)"
proof -
  let ?ps = "py_range (t_partitions T)"
  from put_all_loop_total[of "begin_all T s ?ps" T L use_serialize "fst kv_list" "snd kv_list" "map Begin ?ps"]
  obtain r txn_map' puts where
    l: "put_all_loop L T use_serialize (fst kv_list) (snd kv_list) True (begin_all T s ?ps) (map Begin ?ps)
       = Some (r, txn_map', map Begin ?ps @ puts)"
    and puts: "\<forall>e\<in>set puts. \<exists>p k v. e = Put p k v" by auto
  show ?thesis
  proof (cases r)
    case (Inl e)
    with l have "put_all L T kv_list use_serialize s = Some (map Begin ?ps @ puts, Inl e)"
      by (simp add: put_all_def Let_def)
    with puts show ?thesis by (intro exI[of _ "map Begin ?ps @ puts"] exI[of _ "Inl e"] exI[of _ puts]) simp
  next
    case (Inr succ)
    show ?thesis
    proof (cases succ)
      case True
      with l Inr have "put_all L T kv_list use_serialize s
          = Some (map Begin ?ps @ puts @ map Commit ?ps, Inr (commit_all T txn_map' ?ps s))"
        by (simp add: put_all_def Let_def)
      with puts show ?thesis
        by (intro exI[of _ "map Begin ?ps @ puts @ map Commit ?ps"]
            exI[of _ "Inr (commit_all T txn_map' ?ps s)"] exI[of _ puts]) simp
    next
      case False
      with l Inr have "put_all L T kv_list use_serialize s
          = Some (map Begin ?ps @ puts @ map Abort ?ps, Inr s)"
        by (simp add: put_all_def Let_def)
      with puts show ?thesis
        by (intro exI[of _ "map Begin ?ps @ puts @ map Abort ?ps"] exI[of _ "Inr s"] exI[of _ puts]) simp
    qed
  qed
qed

lemma py_range_2 [simp]: "py_range 2 = [0, 1]" "py_range 1 = [0]"
  by (simp_all add: py_range_def upt_rec)


section \<open>Collect, take and the table invariant\<close>

definition heap_mset :: "heap_entry list \<Rightarrow> entry multiset" where
  "heap_mset es = (\<Sum>e\<in>#mset es. add_mset (fst (fst e), fst (snd (fst e))) (mset (snd e)))"

lemma heap_mset_Nil [simp]: "heap_mset [] = {#}"
  by (simp add: heap_mset_def)

lemma heap_mset_Cons [simp]:
  "heap_mset (((k, v, i), it) # es) = add_mset (k, v) (mset it) + heap_mset es"
  by (simp add: heap_mset_def)

lemma heap_mset_insort [simp]:
  "heap_mset (insort_key fst ((k, v, i), it) es) = add_mset (k, v) (mset it) + heap_mset es"
  by (simp add: heap_mset_def)

lemma heap_mset_sort [simp]: "heap_mset (sort_key fst es) = heap_mset es"
  by (simp add: heap_mset_def)

lemma mset_merge_loop: "mset (merge_loop es) = heap_mset es"
proof (induction es rule: merge_loop.induct)
  case 1
  show ?case by simp
next
  case (2 key "value" i it es)
  show ?case
  proof (cases it)
    case Nil
    with "2.IH" show ?thesis by (simp add: heappop_def)
  next
    case (Cons x it')
    obtain k' v' where x: "x = (k', v')" by (cases x)
    have "mset (merge_loop (heapreplace (((key, value, i), it) # es) ((k', v', i), it')))
        = heap_mset (heapreplace (((key, value, i), it) # es) ((k', v', i), it'))"
      using Cons x[symmetric] by (rule "2.IH"(2))
    then show ?thesis unfolding Cons x by (simp add: heapreplace_def)
  qed
qed

lemma heap_mset_first_entries: "heap_mset (first_entries i cursors) = mset (concat cursors)"
  by (induction i cursors rule: first_entries.induct) simp_all

lemma mset_merge_cursors: "mset (merge_cursors cursors) = mset (concat cursors)"
  by (simp add: merge_cursors_def mset_merge_loop heapify_def heap_mset_first_entries)

text \<open>The heap invariant: the heap is sorted, and every cursor is sorted and ahead of its entry.\<close>

definition heap_ok :: "heap_entry list \<Rightarrow> bool" where
  "heap_ok es \<longleftrightarrow> sorted (map fst es) \<and>
     (\<forall>e\<in>set es. sorted (map fst (snd e)) \<and> (\<forall>x\<in>set (snd e). fst (fst e) \<le> fst x))"

lemma triple_le_fst: "((k::bytes, v::bytes, i::nat) \<le> (k', v', i')) \<Longrightarrow> k \<le> k'"
  by (auto simp: less_eq_prod_def)

lemma heap_ok_keys:
  assumes "heap_ok (((k, v, i), it) # es)" "x \<in># heap_mset (((k, v, i), it) # es)"
  shows "k \<le> fst x"
proof -
  from assms(2) consider "x = (k, v)" | "x \<in> set it" | "x \<in># heap_mset es" by auto
  then show ?thesis
  proof cases
    case 1 then show ?thesis by simp
  next
    case 2 with assms(1) show ?thesis by (auto simp: heap_ok_def)
  next
    case 3
    then obtain e where e: "e \<in> set es" and x: "x \<in># add_mset (fst (fst e), fst (snd (fst e))) (mset (snd e))"
      by (auto simp: heap_mset_def)
    from assms(1) e have "(k, v, i) \<le> fst e" by (auto simp: heap_ok_def)
    then have ke: "k \<le> fst (fst e)" by (cases e) (auto dest: triple_le_fst)
    from x have "x = (fst (fst e), fst (snd (fst e))) \<or> x \<in> set (snd e)" by auto
    then show ?thesis
    proof
      assume "x = (fst (fst e), fst (snd (fst e)))" with ke show ?thesis by simp
    next
      assume "x \<in> set (snd e)"
      with assms(1) e have "fst (fst e) \<le> fst x" by (auto simp: heap_ok_def)
      with ke show ?thesis by simp
    qed
  qed
qed

lemma heap_ok_tl: "heap_ok (e # es) \<Longrightarrow> heap_ok es"
  by (auto simp: heap_ok_def)

lemma heap_ok_replace:
  assumes "heap_ok (((k, v, i), (k', v') # it') # es)"
  shows "heap_ok (insort_key fst ((k', v', i), it') es)"
  using assms by (auto simp: heap_ok_def sorted_insort_key set_insort_key)

lemma sorted_merge_loop: "heap_ok es \<Longrightarrow> sorted (map fst (merge_loop es))"
proof (induction es rule: merge_loop.induct)
  case 1
  show ?case by simp
next
  case (2 key "value" i it es)
  let ?es' = "case it of (key', value') # it' \<Rightarrow> heapreplace (((key, value, i), it) # es) ((key', value', i), it')
        | [] \<Rightarrow> heappop (((key, value, i), it) # es)"
  have ml: "merge_loop (((key, value, i), it) # es) = (key, value) # merge_loop ?es'"
    by (cases it) auto
  have ok': "heap_ok ?es'"
    using "2.prems" by (cases it) (auto simp: heappop_def heapreplace_def dest: heap_ok_tl heap_ok_replace)
  have sub: "heap_mset ?es' \<subseteq># heap_mset (((key, value, i), it) # es)"
    by (cases it) (auto simp: heappop_def heapreplace_def)
  have srt: "sorted (map fst (merge_loop ?es'))"
  proof (cases it)
    case Nil
    with "2.IH" ok' show ?thesis by simp
  next
    case (Cons x it')
    obtain k' v' where x: "x = (k', v')" by (cases x)
    have "heap_ok (heapreplace (((key, value, i), it) # es) ((k', v', i), it'))"
      using ok' unfolding Cons x by simp
    with Cons x[symmetric] have "sorted (map fst (merge_loop (heapreplace (((key, value, i), it) # es) ((k', v', i), it'))))"
      by (rule "2.IH"(2))
    then show ?thesis unfolding Cons x by simp
  qed
  have "key \<le> fst x" if "x \<in> set (merge_loop ?es')" for x
  proof -
    from that have "x \<in># heap_mset ?es'" by (simp flip: mset_merge_loop)
    with sub have "x \<in># heap_mset (((key, value, i), it) # es)" by (meson mset_subset_eqD)
    with "2.prems" show ?thesis by (rule heap_ok_keys)
  qed
  with srt show ?case unfolding ml by (auto)
qed

lemma heap_ok_first_entries:
  assumes "\<forall>c\<in>set cursors. sorted (map fst c)"
  shows "\<forall>e\<in>set (first_entries i cursors). sorted (map fst (snd e)) \<and> (\<forall>x\<in>set (snd e). fst (fst e) \<le> fst x)"
  using assms by (induction i cursors rule: first_entries.induct) auto

lemma sorted_merge_cursors:
  assumes "\<forall>c\<in>set cursors. sorted (map fst c)"
  shows "sorted (map fst (merge_cursors cursors))"
proof -
  have "heap_ok (heapify (first_entries 0 cursors))"
    unfolding heap_ok_def heapify_def using heap_ok_first_entries[OF assms, of 0] by simp
  then show ?thesis unfolding merge_cursors_def by (rule sorted_merge_loop)
qed

lemma set_db_put: "set (db_put k v d) \<subseteq> insert (k, v) (set d)"
  by (induction d) (auto split: if_splits)

lemma db_sorted_put: "db_sorted d \<Longrightarrow> db_sorted (db_put k v d)"
proof (induction d)
  case Nil
  show ?case by (simp add: db_sorted_def)
next
  case (Cons a d)
  obtain k' v' where a: "a = (k', v')" by (cases a)
  from Cons.prems have d: "db_sorted d" and lt: "\<forall>x\<in>set d. k' < fst x"
    by (auto simp: db_sorted_def a)
  show ?case
  proof (cases "k < k'")
    case True
    with Cons.prems show ?thesis by (auto simp: db_sorted_def a)
  next
    case False
    show ?thesis
    proof (cases "k = k'")
      case True
      with Cons.prems show ?thesis by (auto simp: db_sorted_def a)
    next
      case ne: False
      with False have "k' < k" by simp
      moreover have "db_sorted (db_put k v d)" by (rule Cons.IH[OF d])
      moreover have "\<forall>x\<in>set (db_put k v d). k' < fst x"
        using lt \<open>k' < k\<close> set_db_put[of k v d] by auto
      ultimately show ?thesis using False ne by (auto simp: db_sorted_def a)
    qed
  qed
qed

lemma db_sorted_distinct: "db_sorted d \<Longrightarrow> distinct (map fst d)"
  unfolding db_sorted_def by (simp add: strict_sorted_iff)

lemma db_sorted_sorted: "db_sorted d \<Longrightarrow> sorted (map fst d)"
  unfolding db_sorted_def by (rule strict_sorted_imp_sorted)

lemma distinct_py_range [simp]: "distinct (py_range n)"
  by (simp add: py_range_def distinct_map inj_on_def)

lemma distinct_concat_keys:
  assumes "distinct ps"
    and "\<And>p. p \<in> set ps \<Longrightarrow> distinct (map fst (f p))"
    and "\<And>p q x. p \<in> set ps \<Longrightarrow> q \<in> set ps \<Longrightarrow> x \<in> fst ` set (f p) \<Longrightarrow> x \<in> fst ` set (f q) \<Longrightarrow> p = q"
  shows "distinct (map fst (concat (map f ps)))"
  using assms
proof (induction ps)
  case Nil
  show ?case by simp
next
  case (Cons p ps)
  have "distinct (map fst (concat (map f ps)))"
    by (rule Cons.IH) (use Cons.prems in auto)
  moreover have "distinct (map fst (f p))" using Cons.prems(2) by simp
  moreover have "fst ` set (f p) \<inter> fst ` (\<Union>q\<in>set ps. set (f q)) = {}"
  proof (rule ccontr)
    assume "\<not> ?thesis"
    then obtain x q where "x \<in> fst ` set (f p)" "q \<in> set ps" "x \<in> fst ` set (f q)" by auto
    with Cons.prems(3)[of p q x] have "p = q" by simp
    with Cons.prems(1) \<open>q \<in> set ps\<close> show False by simp
  qed
  ultimately show ?case by (simp add: image_Un)
qed

lemma collect_mset:
  "mset (collect T s) = mset (concat (map (\<lambda>p. fs s (env_for_partition T p)) (py_range (t_partitions T))))"
  by (simp add: collect_def mset_merge_cursors)

lemma collect_sorted_distinct:
  assumes "table_ok L T s"
  shows "sorted (map fst (collect T s))" "distinct (map fst (collect T s))"
proof -
  let ?f = "\<lambda>p. fs s (env_for_partition T p)"
  let ?ps = "py_range (t_partitions T)"
  have "\<forall>c\<in>set (map ?f ?ps). sorted (map fst c)"
    using assms by (auto simp: table_ok_def dest: db_sorted_sorted)
  then show "sorted (map fst (collect T s))" unfolding collect_def by (rule sorted_merge_cursors)
  have d: "distinct (map fst (concat (map ?f ?ps)))"
  proof (rule distinct_concat_keys)
    show "distinct ?ps" by simp
    show "distinct (map fst (?f p))" if "p \<in> set ?ps" for p
      using assms that by (auto simp: table_ok_def dest: db_sorted_distinct)
    show "p = q" if "p \<in> set ?ps" "q \<in> set ?ps" "x \<in> fst ` set (?f p)" "x \<in> fst ` set (?f q)" for p q x
    proof -
      from assms that(1,3) have "hash_key_to_partition (sha1_digest L) x (t_partitions T) = Some (Inr p)"
        by (auto simp: table_ok_def)
      moreover from assms that(2,4) have "hash_key_to_partition (sha1_digest L) x (t_partitions T) = Some (Inr q)"
        by (auto simp: table_ok_def)
      ultimately show ?thesis by simp
    qed
  qed
  have "mset (map fst (collect T s)) = mset (map fst (concat (map ?f ?ps)))"
    using collect_mset[of T s] by (metis mset_map)
  with d show "distinct (map fst (collect T s))" by (metis mset_eq_imp_distinct_iff)
qed

lemma length_collect: "int (length (collect T s)) = count_entries T s"
proof -
  have "length (collect T s) = length (concat (map (\<lambda>p. fs s (env_for_partition T p)) (py_range (t_partitions T))))"
    using collect_mset[of T s] by (metis size_mset)
  also have "int \<dots> = count_entries T s"
    by (simp add: count_entries_def length_concat comp_def flip: sum_list_of_nat)
  finally show ?thesis .
qed

lemma env_for_partition_inj [simp]: "env_for_partition T p = env_for_partition T q \<longleftrightarrow> p = q"
  by (simp add: env_for_partition_def)

lemma table_ok_empty: "table_ok L T empty_engine"
  by (simp add: table_ok_def empty_engine_def db_sorted_def)

lemma table_ok_update:
  assumes "table_ok L T s" "db_sorted d"
    and "\<forall>e\<in>set d. hash_key_to_partition (sha1_digest L) (fst e) (t_partitions T) = Some (Inr p)"
  shows "table_ok L T (update_env (env_for_partition T p) d s)"
  using assms by (auto simp: table_ok_def)

lemma db_put_all_keys:
  assumes "\<forall>e\<in>set d. P (fst e)" "P k"
  shows "\<forall>e\<in>set (db_put k v d). P (fst e)"
  using assms set_db_put[of k v d] by fastforce

lemma put_returns:
  assumes "put L T k v use_serialize s = Some (Inr (b, s'))"
  obtains k_bytes v_bytes p where
    "hash_key_to_partition (sha1_digest L) k_bytes (t_partitions T) = Some (Inr p)"
    "p \<in> set (py_range (t_partitions T))" "valid_key k_bytes"
    "s' = update_env (env_for_partition T p) (db_put k_bytes v_bytes (fs s (env_for_partition T p))) s"
proof -
  from assms obtain kvb where kv: "kv_to_bytes L use_serialize k v = Some (Inr kvb)"
    and r: "(case kvb of (k_bytes, v_bytes) \<Rightarrow>
     bnd (hash_key_to_partition (sha1_digest L) k_bytes (t_partitions T)) (\<lambda>p.
     let env = env_for_partition T p
     in bnd (txn_put k_bytes v_bytes (fs s env)) (\<lambda>d. ret (True, update_env env d s)))) = Some (Inr (b, s'))"
    unfolding put_def by (rule bnd_eq_Some_InrE)
  obtain k_bytes v_bytes where kvb: "kvb = (k_bytes, v_bytes)" by (cases kvb)
  from r[unfolded kvb prod.case] obtain p where
    p: "hash_key_to_partition (sha1_digest L) k_bytes (t_partitions T) = Some (Inr p)"
    and r2: "(let env = env_for_partition T p
     in bnd (txn_put k_bytes v_bytes (fs s env)) (\<lambda>d. ret (True, update_env env d s))) = Some (Inr (b, s'))"
    by (rule bnd_eq_Some_InrE)
  from r2[unfolded Let_def] obtain d where
    d: "txn_put k_bytes v_bytes (fs s (env_for_partition T p)) = Some (Inr d)"
    and r3: "ret (True, update_env (env_for_partition T p) d s) = Some (Inr (b, s'))"
    by (rule bnd_eq_Some_InrE)
  from txn_put_returns[OF d] have vk: "valid_key k_bytes"
    and d': "d = db_put k_bytes v_bytes (fs s (env_for_partition T p))" by simp_all
  from r3 have s': "s' = update_env (env_for_partition T p) (db_put k_bytes v_bytes (fs s (env_for_partition T p))) s"
    by (simp add: ret_def d')
  from hash_range[of "t_partitions T" "sha1_digest L" k_bytes] hash_invalid[of "t_partitions T" "sha1_digest L" k_bytes] p
  have pr: "p \<in> set (py_range (t_partitions T))" by (cases "1 \<le> t_partitions T") auto
  from that[OF p pr vk s'] show ?thesis .
qed

lemma put_preserves_table_ok:
  assumes "put L T k v use_serialize s = Some (Inr (b, s'))" "table_ok L T s"
  shows "table_ok L T s'"
  using assms(1)
proof (rule put_returns)
  fix k_bytes v_bytes p
  assume p: "hash_key_to_partition (sha1_digest L) k_bytes (t_partitions T) = Some (Inr p)"
    and pr: "p \<in> set (py_range (t_partitions T))"
    and s': "s' = update_env (env_for_partition T p) (db_put k_bytes v_bytes (fs s (env_for_partition T p))) s"
  let ?d = "fs s (env_for_partition T p)"
  have "db_sorted (db_put k_bytes v_bytes ?d)"
    using assms(2) pr by (auto simp: table_ok_def intro: db_sorted_put)
  moreover have "\<forall>e\<in>set (db_put k_bytes v_bytes ?d).
      hash_key_to_partition (sha1_digest L) (fst e) (t_partitions T) = Some (Inr p)"
    by (rule db_put_all_keys) (use assms(2) pr p in \<open>auto simp: table_ok_def\<close>)
  ultimately show ?thesis unfolding s' by (rule table_ok_update[OF assms(2)])
qed

lemma put_preserves_valid_keys:
  assumes "put L T k v use_serialize s = Some (Inr (b, s'))" "valid_keys T s"
  shows "valid_keys T s'"
  using assms(1)
proof (rule put_returns)
  fix k_bytes v_bytes p
  assume pr: "p \<in> set (py_range (t_partitions T))" and vk: "valid_key k_bytes"
    and s': "s' = update_env (env_for_partition T p) (db_put k_bytes v_bytes (fs s (env_for_partition T p))) s"
  have "\<forall>e\<in>set (db_put k_bytes v_bytes (fs s (env_for_partition T p))). valid_key (fst e)"
    by (rule db_put_all_keys) (use assms(2) pr vk in \<open>auto simp: valid_keys_def\<close>)
  with assms(2) show ?thesis unfolding s' by (auto simp: valid_keys_def)
qed

text \<open>What the transactions of \<open>put_all\<close> hold: an invariant of the open transactions that
  every put of a valid key into the partition of the key keeps, holds when the loop ends.\<close>

lemma try_put_returns:
  assumes "try_put L T use_serialize k v succ txn_map events = Some (Inr (succ', txn_map', events'))"
  shows "txn_map' = txn_map \<or>
    (\<exists>p d k_bytes v_bytes. txn_map p = Some d \<and> valid_key k_bytes \<and>
       hash_key_to_partition (sha1_digest L) k_bytes (t_partitions T) = Some (Inr p) \<and>
       txn_map' = txn_map(p \<mapsto> db_put k_bytes v_bytes d))"
proof -
  from assms obtain kvb where kv: "kv_to_bytes L use_serialize k v = Some (Inr kvb)"
    and r: "(case kvb of (k_bytes, v_bytes) \<Rightarrow>
     bnd (hash_key_to_partition (sha1_digest L) k_bytes (t_partitions T)) (\<lambda>p.
     if succ then
       (case txn_map p of
          None \<Rightarrow> raise KeyError
        | Some d \<Rightarrow>
            bnd (txn_put k_bytes v_bytes d) (\<lambda>d'.
            ret (True, txn_map(p \<mapsto> d'), events @ [Put p k_bytes v_bytes])))
     else ret (False, txn_map, events))) = Some (Inr (succ', txn_map', events'))"
    unfolding try_put_def by (rule bnd_eq_Some_InrE)
  obtain k_bytes v_bytes where kvb: "kvb = (k_bytes, v_bytes)" by (cases kvb)
  from r[unfolded kvb prod.case] obtain p where
    p: "hash_key_to_partition (sha1_digest L) k_bytes (t_partitions T) = Some (Inr p)"
    and r2: "(if succ then
       (case txn_map p of
          None \<Rightarrow> raise KeyError
        | Some d \<Rightarrow>
            bnd (txn_put k_bytes v_bytes d) (\<lambda>d'.
            ret (True, txn_map(p \<mapsto> d'), events @ [Put p k_bytes v_bytes])))
     else ret (False, txn_map, events)) = Some (Inr (succ', txn_map', events'))"
    by (rule bnd_eq_Some_InrE)
  show ?thesis
  proof (cases succ)
    case False
    with r2 show ?thesis by (simp add: ret_def)
  next
    case True
    show ?thesis
    proof (cases "txn_map p")
      case None
      with True r2 show ?thesis by (simp add: raise_def)
    next
      case (Some d)
      with True r2 obtain d' where d': "txn_put k_bytes v_bytes d = Some (Inr d')"
        and m: "txn_map' = txn_map(p \<mapsto> d')"
        by (auto elim!: bnd_eq_Some_InrE simp: ret_def)
      from txn_put_returns[OF d'] m Some p show ?thesis by blast
    qed
  qed
qed

lemma put_all_loop_invariant:
  assumes "put_all_loop L T use_serialize items stop succ txn_map events = Some (r, txn_map', events')"
    and "I txn_map"
    and step: "\<And>m p d k_bytes v_bytes. I m \<Longrightarrow> m p = Some d \<Longrightarrow> valid_key k_bytes \<Longrightarrow>
       hash_key_to_partition (sha1_digest L) k_bytes (t_partitions T) = Some (Inr p) \<Longrightarrow>
       I (m(p \<mapsto> db_put k_bytes v_bytes d))"
  shows "I txn_map'"
  using assms(1,2)
proof (induction items arbitrary: succ txn_map events)
  case Nil
  then show ?case by (cases stop) simp_all
next
  case (Cons item items)
  show ?case
  proof (cases rule: unpack_pair_cases[of item])
    case (1 e)
    with Cons.prems show ?thesis by simp
  next
    case u: (2 k v)
    show ?thesis
    proof (cases "try_put L T use_serialize k v succ txn_map events")
      case None
      with u Cons.prems(1) show ?thesis by simp
    next
      case (Some a)
      show ?thesis
      proof (cases a)
        case (Inl e)
        with Some u Cons.prems show ?thesis by simp
      next
        case (Inr x)
        obtain succ1 m1 ev1 where x: "x = (succ1, m1, ev1)" by (cases x)
        from Some Inr x u Cons.prems(1) have
          l: "put_all_loop L T use_serialize items stop succ1 m1 ev1 = Some (r, txn_map', events')"
          by simp
        from Some Inr x have "try_put L T use_serialize k v succ txn_map events = Some (Inr (succ1, m1, ev1))"
          by simp
        from try_put_returns[OF this] Cons.prems(2) have "I m1" by (auto intro: step)
        from Cons.IH[OF l this] show ?thesis .
      qed
    qed
  qed
qed

definition txn_ok :: "libs \<Rightarrow> dtable \<Rightarrow> (int \<rightharpoonup> db) \<Rightarrow> bool" where
  "txn_ok L T txn_map \<longleftrightarrow>
     (\<forall>p d. txn_map p = Some d \<longrightarrow> db_sorted d \<and>
        (\<forall>e\<in>set d. hash_key_to_partition (sha1_digest L) (fst e) (t_partitions T) = Some (Inr p)))"

definition txn_valid :: "(int \<rightharpoonup> db) \<Rightarrow> bool" where
  "txn_valid txn_map \<longleftrightarrow> (\<forall>p d. txn_map p = Some d \<longrightarrow> (\<forall>e\<in>set d. valid_key (fst e)))"

lemma put_all_loop_txn_ok:
  assumes "put_all_loop L T use_serialize items stop succ txn_map events = Some (r, txn_map', events')"
    and "txn_ok L T txn_map"
  shows "txn_ok L T txn_map'"
  using assms
proof (rule put_all_loop_invariant)
  fix m p d k_bytes v_bytes
  assume m: "txn_ok L T m" and d: "m p = Some d"
    and hp: "hash_key_to_partition (sha1_digest L) k_bytes (t_partitions T) = Some (Inr p)"
  from m d have "db_sorted d" "\<forall>e\<in>set d. hash_key_to_partition (sha1_digest L) (fst e) (t_partitions T) = Some (Inr p)"
    by (auto simp: txn_ok_def)
  then have "db_sorted (db_put k_bytes v_bytes d)"
    "\<forall>e\<in>set (db_put k_bytes v_bytes d). hash_key_to_partition (sha1_digest L) (fst e) (t_partitions T) = Some (Inr p)"
    using hp by (auto intro: db_sorted_put db_put_all_keys[rule_format])
  then show "txn_ok L T (m(p \<mapsto> db_put k_bytes v_bytes d))"
    using m by (auto simp: txn_ok_def)
qed

lemma put_all_loop_txn_valid:
  assumes "put_all_loop L T use_serialize items stop succ txn_map events = Some (r, txn_map', events')"
    and "txn_valid txn_map"
  shows "txn_valid txn_map'"
  using assms
proof (rule put_all_loop_invariant)
  fix m :: "int \<rightharpoonup> db" and p d k_bytes v_bytes
  assume m: "txn_valid m" and d: "m p = Some d" and vk: "valid_key k_bytes"
  from m d have "\<forall>e\<in>set d. valid_key (fst e)" by (auto simp: txn_valid_def)
  then have "\<forall>e\<in>set (db_put k_bytes v_bytes d). valid_key (fst e)"
    using vk by (auto intro: db_put_all_keys[rule_format])
  then show "txn_valid (m(p \<mapsto> db_put k_bytes v_bytes d))"
    using m by (auto simp: txn_valid_def)
qed

lemma txn_ok_begin_all:
  assumes "table_ok L T s" "set ps \<subseteq> set (py_range (t_partitions T))"
  shows "txn_ok L T (begin_all T s ps)"
  using assms(2)
proof (induction ps)
  case Nil
  show ?case by (simp add: txn_ok_def)
next
  case (Cons p ps)
  then have "txn_ok L T (begin_all T s ps)" by simp
  moreover from Cons.prems assms(1) have "db_sorted (fs s (env_for_partition T p)) \<and>
        (\<forall>e\<in>set (fs s (env_for_partition T p)).
           hash_key_to_partition (sha1_digest L) (fst e) (t_partitions T) = Some (Inr p))"
    by (simp add: table_ok_def)
  ultimately show ?case by (auto simp: txn_ok_def)
qed

lemma table_ok_commit_all:
  assumes "txn_ok L T txn_map" "table_ok L T s"
  shows "table_ok L T (commit_all T txn_map ps s)"
  using assms(2)
proof (induction ps arbitrary: s)
  case Nil
  then show ?case by simp
next
  case (Cons p ps)
  show ?case
  proof (cases "txn_map p")
    case None
    with Cons show ?thesis by simp
  next
    case (Some d)
    with assms(1) have "db_sorted d"
      "\<forall>e\<in>set d. hash_key_to_partition (sha1_digest L) (fst e) (t_partitions T) = Some (Inr p)"
      by (auto simp: txn_ok_def)
    from table_ok_update[OF Cons.prems this] have "table_ok L T (update_env (env_for_partition T p) d s)" .
    from Cons.IH[OF this] Some show ?thesis by simp
  qed
qed

lemma put_all_returns:
  assumes "put_all L T kv_list use_serialize s = Some (events, Inr s')"
  obtains "s' = s"
  | txn_map' ev where
      "put_all_loop L T use_serialize (fst kv_list) (snd kv_list) True
         (begin_all T s (py_range (t_partitions T))) (map Begin (py_range (t_partitions T)))
       = Some (Inr True, txn_map', ev)"
      "s' = commit_all T txn_map' (py_range (t_partitions T)) s"
proof -
  let ?ps = "py_range (t_partitions T)"
  obtain r txn_map' ev where
    l: "put_all_loop L T use_serialize (fst kv_list) (snd kv_list) True (begin_all T s ?ps) (map Begin ?ps)
       = Some (r, txn_map', ev)"
    using assms by (cases "put_all_loop L T use_serialize (fst kv_list) (snd kv_list) True (begin_all T s ?ps) (map Begin ?ps)")
      (auto simp: put_all_def Let_def)
  show ?thesis
  proof (cases r)
    case (Inl e)
    with l assms show ?thesis by (simp add: put_all_def Let_def)
  next
    case (Inr succ)
    show ?thesis
    proof (cases succ)
      case True
      with l Inr assms have "s' = commit_all T txn_map' ?ps s" by (simp add: put_all_def Let_def)
      with that(2) l Inr True show ?thesis by simp
    next
      case False
      with l Inr assms have "s' = s" by (simp add: put_all_def Let_def)
      with that(1) show ?thesis .
    qed
  qed
qed

lemma put_all_preserves_table_ok:
  assumes "put_all L T kv_list use_serialize s = Some (events, Inr s')" "table_ok L T s"
  shows "table_ok L T s'"
  using assms(1)
proof (cases rule: put_all_returns)
  case 1
  with assms(2) show ?thesis by simp
next
  case (2 txn_map' ev)
  have "txn_ok L T (begin_all T s (py_range (t_partitions T)))"
    by (rule txn_ok_begin_all[OF assms(2)]) simp
  from put_all_loop_txn_ok[OF 2(1) this] have "txn_ok L T txn_map'" .
  from table_ok_commit_all[OF this assms(2)] show ?thesis by (simp add: 2(2))
qed

lemma txn_valid_begin_all:
  assumes "valid_keys T s" "set ps \<subseteq> set (py_range (t_partitions T))"
  shows "txn_valid (begin_all T s ps)"
  using assms(2)
proof (induction ps)
  case Nil
  show ?case by (simp add: txn_valid_def)
next
  case (Cons p ps)
  then have "txn_valid (begin_all T s ps)" by simp
  moreover from Cons.prems have "p \<in> set (py_range (t_partitions T))" by simp
  with assms(1) have "\<forall>e\<in>set (fs s (env_for_partition T p)). valid_key (fst e)"
    unfolding valid_keys_def by blast
  ultimately show ?case by (auto simp: txn_valid_def)
qed

lemma valid_keys_commit_all:
  assumes "txn_valid txn_map" "valid_keys T s"
  shows "valid_keys T (commit_all T txn_map ps s)"
  using assms(2)
proof (induction ps arbitrary: s)
  case Nil
  then show ?case by simp
next
  case (Cons p ps)
  show ?case
  proof (cases "txn_map p")
    case None
    with Cons show ?thesis by simp
  next
    case (Some d)
    with assms(1) have "\<forall>e\<in>set d. valid_key (fst e)" by (auto simp: txn_valid_def)
    with Cons.prems have "valid_keys T (update_env (env_for_partition T p) d s)"
      by (auto simp: valid_keys_def)
    from Cons.IH[OF this] Some show ?thesis by simp
  qed
qed

lemma put_all_preserves_valid_keys:
  assumes "put_all L T kv_list use_serialize s = Some (events, Inr s')" "valid_keys T s"
  shows "valid_keys T s'"
  using assms(1)
proof (cases rule: put_all_returns)
  case 1
  with assms(2) show ?thesis by simp
next
  case (2 txn_map' ev)
  have "txn_valid (begin_all T s (py_range (t_partitions T)))"
    by (rule txn_valid_begin_all[OF assms(2)]) simp
  from put_all_loop_txn_valid[OF 2(1) this] have "txn_valid txn_map'" .
  from valid_keys_commit_all[OF this assms(2)] show ?thesis by (simp add: 2(2))
qed

lemmas put_all_eval = put_all_def try_put_def kv_to_bytes_def to_bytes_def serialize_def ret_def raise_def Let_def
  env_for_partition_def update_env_def empty_engine_def txn_put_def valid_key_def max_key_size_def

lemma two_entries_fs:
  "fs two_entries = (\<lambda>_. [])((''LMDB'', ''ns'', ''a'', 0) := [([73, 2], [73, 3]), ([73, 5], [73, 1])],
       (''LMDB'', ''ns'', ''a'', 1) := [])"
  unfolding two_entries_def by (simp add: put_all_eval)

lemma take_n_nonpositive: "n \<le> 0 \<Longrightarrow> take_n L T n keysOnly use_serialize s = take_n L T 1 keysOnly use_serialize s"
  by (simp add: take_n_def)

lemma take_1:
  "take_n L T 1 keysOnly use_serialize s =
     (case collect T s of
        [] \<Rightarrow> ret []
      | e # es \<Rightarrow> bnd (yield_item L use_serialize e) (\<lambda>(k, v). ret [if keysOnly then k else PyTuple [k, v]]))"
  by (cases "collect T s") (simp_all add: take_n_def Let_def case_prod_unfold)

lemma collect_nonempty:
  assumes "0 < count_entries T s"
  obtains e es where "collect T s = e # es"
  using assms length_collect[of T s] by (cases "collect T s") auto

lemma collect_empty: "count_entries T s = 0 \<Longrightarrow> collect T s = []"
  using length_collect[of T s] by simp


section \<open>The operators on tables with equal partition counts\<close>

lemma update_env_fields [simp]:
  "job_id (update_env e d s) = job_id s" "uuid_calls (update_env e d s) = uuid_calls s"
  "urandom_calls (update_env e d s) = urandom_calls s"
  by (simp_all add: update_env_def)

text \<open>Running the tasks of an operator: task \<open>q\<close> replaces the environment \<open>dst q\<close> by \<open>D q\<close>.\<close>

lemma run_tasks_effect:
  assumes "distinct ps" "inj_on dst (set ps)"
    and "\<And>q sb. q \<in> set ps \<Longrightarrow> (\<forall>path. path \<notin> dst ` (set ps - {q}) \<longrightarrow> fs sb path = fs s path)
           \<Longrightarrow> task q sb = Some (Inr (update_env (dst q) (D q) sb))"
  shows "\<exists>s2. run_tasks task ps s = Some (Inr s2) \<and> (\<forall>q\<in>set ps. fs s2 (dst q) = D q) \<and>
     (\<forall>path. path \<notin> dst ` set ps \<longrightarrow> fs s2 path = fs s path) \<and>
     job_id s2 = job_id s \<and> uuid_calls s2 = uuid_calls s \<and> urandom_calls s2 = urandom_calls s"
  using assms
proof (induction ps arbitrary: s)
  case Nil
  show ?case by (simp add: ret_def)
next
  case (Cons q qs)
  let ?sq = "update_env (dst q) (D q) s"
  have tq: "task q s = Some (Inr ?sq)" by (rule Cons.prems(3)) simp_all
  have qn: "q \<notin> set qs" and dq: "distinct qs" using Cons.prems(1) by simp_all
  have inj: "inj_on dst (set qs)" using Cons.prems(2) by (simp add: inj_on_def)
  have dstq: "dst q \<notin> dst ` set qs"
    using Cons.prems(2) qn by (auto simp: inj_on_def)
  have step: "task q' sb = Some (Inr (update_env (dst q') (D q') sb))"
    if q': "q' \<in> set qs" and agree: "\<forall>path. path \<notin> dst ` (set qs - {q'}) \<longrightarrow> fs sb path = fs ?sq path" for q' sb
  proof (rule Cons.prems(3))
    show "q' \<in> set (q # qs)" using q' by simp
    show "\<forall>path. path \<notin> dst ` (set (q # qs) - {q'}) \<longrightarrow> fs sb path = fs s path"
    proof (intro allI impI)
      fix path assume n: "path \<notin> dst ` (set (q # qs) - {q'})"
      have "q \<noteq> q'" using q' qn by auto
      with n have a: "path \<noteq> dst q" and b: "path \<notin> dst ` (set qs - {q'})" by auto
      from agree b have "fs sb path = fs ?sq path" by blast
      also have "\<dots> = fs s path" using a by (simp add: update_env_def)
      finally show "fs sb path = fs s path" .
    qed
  qed
  from Cons.IH[OF dq inj step] obtain s2 where
    r: "run_tasks task qs ?sq = Some (Inr s2)" and c: "\<forall>q'\<in>set qs. fs s2 (dst q') = D q'"
    and f: "\<forall>path. path \<notin> dst ` set qs \<longrightarrow> fs s2 path = fs ?sq path"
    and o: "job_id s2 = job_id ?sq" "uuid_calls s2 = uuid_calls ?sq" "urandom_calls s2 = urandom_calls ?sq"
    by blast
  have "run_tasks task (q # qs) s = Some (Inr s2)" using tq r by simp
  moreover have "fs s2 (dst q) = D q" using f[rule_format, OF dstq] by simp
  with c have "\<forall>q'\<in>set (q # qs). fs s2 (dst q') = D q'" by simp
  moreover have "\<forall>path. path \<notin> dst ` set (q # qs) \<longrightarrow> fs s2 path = fs s path"
  proof (intro allI impI)
    fix path assume n: "path \<notin> dst ` set (q # qs)"
    then have a: "path \<noteq> dst q" and b: "path \<notin> dst ` set qs" by auto
    from f b have "fs s2 path = fs ?sq path" by blast
    then show "fs s2 path = fs s path" using a by simp
  qed
  ultimately show ?case using o by auto
qed

lemma is_pickleD:
  assumes "is_pickle L b"
  obtains x where "pickle_loads L b = Some x" "pickle_dumps L x = Some b"
  using assms by (auto simp: is_pickle_def split: option.splits)

lemma db_get_in_set: "db_get k d = Some v \<Longrightarrow> (k, v) \<in> set d"
  by (simp add: db_get_def map_of_SomeD)

text \<open>With the default merge function, pickled values and stored keys that are valid,
  the left pass copies the left entries and the right pass keeps them.\<close>

lemma union_left_default:
  assumes "\<forall>e\<in>set left. is_pickle L (snd e)" "\<forall>e\<in>set right. is_pickle L (snd e)"
    and "\<forall>e\<in>set left. valid_key (fst e)"
  shows "\<exists>d. union_left L union_default right left d0 = Some (Inr d) \<and>
     (\<forall>k v. distinct (map fst left) \<longrightarrow> (k, v) \<in> set left \<longrightarrow> db_get k d = Some v) \<and>
     (\<forall>k. k \<notin> fst ` set left \<longrightarrow> db_get k d = db_get k d0)"
  using assms(1,3)
proof (induction left arbitrary: d0)
  case Nil
  show ?case by (simp add: ret_def)
next
  case (Cons e left)
  obtain kb lb where e: "e = (kb, lb)" by (cases e)
  from Cons.prems e have pl: "is_pickle L lb" and rest: "\<forall>e\<in>set left. is_pickle L (snd e)"
    and vk: "valid_key kb" and vrest: "\<forall>e\<in>set left. valid_key (fst e)" by auto
  note ne = valid_key_nonempty[OF vk]
  from pl obtain lv where lv: "pickle_loads L lb = Some lv" "pickle_dumps L lv = Some lb"
    by (rule is_pickleD)
  have step: "union_left L union_default right (e # left) d0
      = union_left L union_default right left (db_put kb lb d0)"
  proof (cases "db_get kb right")
    case None
    then show ?thesis by (simp add: e ne vk)
  next
    case (Some rb)
    then have "(kb, rb) \<in> set right" by (rule db_get_in_set)
    with assms(2) have "is_pickle L rb" by auto
    then obtain rv where rv: "pickle_loads L rb = Some rv" "pickle_dumps L rv = Some rb"
      by (rule is_pickleD)
    show ?thesis
      by (simp add: e Some deserialize_Some serialize_Some lv rv union_default_def ne vk)
  qed
  from Cons.IH[OF rest vrest, of "db_put kb lb d0"] obtain d where
    d: "union_left L union_default right left (db_put kb lb d0) = Some (Inr d)"
    and i: "\<forall>k v. distinct (map fst left) \<longrightarrow> (k, v) \<in> set left \<longrightarrow> db_get k d = Some v"
    and o: "\<forall>k. k \<notin> fst ` set left \<longrightarrow> db_get k d = db_get k (db_put kb lb d0)"
    by blast
  have "\<forall>k v. distinct (map fst (e # left)) \<longrightarrow> (k, v) \<in> set (e # left) \<longrightarrow> db_get k d = Some v"
  proof (intro allI impI)
    fix k v assume dist: "distinct (map fst (e # left))" and m: "(k, v) \<in> set (e # left)"
    show "db_get k d = Some v"
    proof (cases "(k, v) = e")
      case True
      then have "k = kb" "v = lb" using e by auto
      moreover have "kb \<notin> fst ` set left" using dist e by simp
      ultimately show ?thesis using o by simp
    next
      case False
      with m have "(k, v) \<in> set left" by simp
      moreover have "distinct (map fst left)" using dist by simp
      ultimately show ?thesis using i by blast
    qed
  qed
  moreover have "\<forall>k. k \<notin> fst ` set (e # left) \<longrightarrow> db_get k d = db_get k d0"
  proof (intro allI impI)
    fix k assume "k \<notin> fst ` set (e # left)"
    then have "k \<noteq> kb" "k \<notin> fst ` set left" using e by auto
    then show "db_get k d = db_get k d0" using o by simp
  qed
  ultimately show ?case using step d by simp
qed

lemma union_right_keeps:
  assumes "\<forall>e\<in>set right. valid_key (fst e)"
  shows "\<exists>d. union_right right dst = Some (Inr d) \<and> (\<forall>k v. db_get k dst = Some v \<longrightarrow> db_get k d = Some v)"
  using assms
proof (induction right arbitrary: dst)
  case Nil
  then show ?case by (simp add: ret_def)
next
  case (Cons e right)
  obtain kb rb where e: "e = (kb, rb)" by (cases e)
  from Cons.prems e have vk: "valid_key kb" and vrest: "\<forall>e\<in>set right. valid_key (fst e)" by auto
  note ne = valid_key_nonempty[OF vk]
  show ?case
  proof (cases "db_get kb dst")
    case None
    from Cons.IH[OF vrest, of "db_put kb rb dst"] obtain d where
      d: "union_right right (db_put kb rb dst) = Some (Inr d)"
      and k: "\<forall>k v. db_get k (db_put kb rb dst) = Some v \<longrightarrow> db_get k d = Some v" by blast
    have "\<forall>k v. db_get k dst = Some v \<longrightarrow> db_get k d = Some v"
    proof (intro allI impI)
      fix k v assume a: "db_get k dst = Some v"
      with None have "k \<noteq> kb" by auto
      then have "db_get k (db_put kb rb dst) = Some v" using a by simp
      with k show "db_get k d = Some v" by blast
    qed
    with d show ?thesis by (simp add: e None ne vk)
  next
    case (Some f)
    from Cons.IH[OF vrest, of dst] show ?thesis by (simp add: e Some ne)
  qed
qed

text \<open>The common tail of the operators, when task \<open>q\<close> replaces the environment of partition
  \<open>q\<close> of the derived table by \<open>D q\<close> and the registry has no entry for the derived table.\<close>

lemma derived_table_effect:
  assumes fid: "fid = uuid1 L (uuid_calls s)"
    and dst: "dst = (\<lambda>q. (StoreType_IN_MEMORY, job_id s, fid, q))"
    and N: "1 \<le> t_partitions self"
    and step: "\<And>q sb. q \<in> set (py_range (t_partitions self)) \<Longrightarrow>
        (\<forall>path. path \<notin> dst ` (set (py_range (t_partitions self)) - {q}) \<longrightarrow> fs sb path = fs s path) \<Longrightarrow>
        do_func q (dst q) sb = Some (Inr (update_env (dst q) (D q) sb))"
    and kb: "pickle_dumps L (PyStr (table_key StoreType_IN_MEMORY (job_id s) fid)) = Some okb"
    and vk: "valid_key okb"
    and nb: "pickle_dumps L (PyInt (t_partitions self)) = Some nb"
    and nl: "pickle_loads L nb = Some (PyInt (t_partitions self))"
    and fresh: "\<And>q. db_get okb (fs s (env_for_partition meta_table q)) = None"
  shows "\<exists>s' mp. derived_table L self do_func s
        = Some (Inr (\<lparr>t_type = StoreType_IN_MEMORY, t_namespace = job_id s, t_name = fid,
                      t_partitions = t_partitions self\<rparr>, s')) \<and>
       (\<forall>q\<in>set (py_range (t_partitions self)). fs s' (dst q) = D q) \<and>
       (\<forall>path. path \<notin> dst ` set (py_range (t_partitions self)) \<longrightarrow>
           path \<noteq> env_for_partition meta_table mp \<longrightarrow> fs s' path = fs s path) \<and>
       fs s' (env_for_partition meta_table mp) = db_put okb nb (fs s (env_for_partition meta_table mp)) \<and>
       job_id s' = job_id s \<and> uuid_calls s' = Suc (uuid_calls s) \<and> urandom_calls s' = urandom_calls s"
proof -
  let ?N = "t_partitions self"
  let ?s1 = "s\<lparr>uuid_calls := Suc (uuid_calls s)\<rparr>"
  have inj: "inj_on dst (set (py_range ?N))" by (simp add: dst inj_on_def)
  have step1: "do_func q (dst q) sb = Some (Inr (update_env (dst q) (D q) sb))"
    if "q \<in> set (py_range ?N)"
      and "\<forall>path. path \<notin> dst ` (set (py_range ?N) - {q}) \<longrightarrow> fs sb path = fs ?s1 path" for q sb
    using that by (intro step) simp_all
  from run_tasks_effect[where ps = "py_range ?N" and dst = dst and task = "\<lambda>q. do_func q (dst q)"
      and s = ?s1 and D = D, OF distinct_py_range inj step1]
  obtain s2 where r: "run_tasks (\<lambda>q. do_func q (dst q)) (py_range ?N) ?s1 = Some (Inr s2)"
    and c: "\<forall>q\<in>set (py_range ?N). fs s2 (dst q) = D q"
    and f: "\<forall>path. path \<notin> dst ` set (py_range ?N) \<longrightarrow> fs s2 path = fs ?s1 path"
    and o1: "job_id s2 = job_id ?s1" "uuid_calls s2 = uuid_calls ?s1" "urandom_calls s2 = urandom_calls ?s1"
    by blast
  from o1 have o: "job_id s2 = job_id s" "uuid_calls s2 = Suc (uuid_calls s)" "urandom_calls s2 = urandom_calls s"
    by simp_all
  have meta: "env_for_partition meta_table q \<notin> dst ` set (py_range ?N)" for q
    by (auto simp: dst env_for_partition_def meta_table_def StoreType_IN_MEMORY_def)
  have fresh2: "db_get okb (fs s2 (env_for_partition meta_table q)) = None" for q
    using f[rule_format, OF meta[of q]] fresh[of q] by simp
  have kb2: "pickle_dumps L (PyStr (table_key (if False then StoreType_LMDB else StoreType_IN_MEMORY) (job_id s2) fid)) = Some okb"
    using kb o by simp
  from table_first_state[where L = L and persistent = False and namespace = "job_id s2" and name = fid
      and k_bytes = okb and n = ?N and v_bytes = nb and s = s2, OF kb2 vk nb nl fresh2]
  obtain mp where t: "table L fid (job_id s2) ?N False s2
     = Some (Inr (\<lparr>t_type = StoreType_IN_MEMORY, t_namespace = job_id s2, t_name = fid, t_partitions = ?N\<rparr>,
         update_env (env_for_partition meta_table mp)
           (db_put okb nb (fs s2 (env_for_partition meta_table mp))) s2))"
    by auto
  define s' where "s' = update_env (env_for_partition meta_table mp)
      (db_put okb nb (fs s2 (env_for_partition meta_table mp))) s2"
  have fs': "fs s' = (fs s2)(env_for_partition meta_table mp := db_put okb nb (fs s2 (env_for_partition meta_table mp)))"
    by (simp add: s'_def)
  have 1: "derived_table L self do_func s
        = Some (Inr (\<lparr>t_type = StoreType_IN_MEMORY, t_namespace = job_id s, t_name = fid, t_partitions = ?N\<rparr>, s'))"
  proof -
    have r': "run_tasks (\<lambda>p. do_func p (StoreType_IN_MEMORY, job_id s, fid, p)) (py_range ?N) ?s1 = Some (Inr s2)"
      using r by (simp add: dst)
    show ?thesis unfolding s'_def using r' t N o by (simp add: derived_table_def new_uuid_def fid[symmetric])
  qed
  have 2: "\<forall>q\<in>set (py_range ?N). fs s' (dst q) = D q"
  proof
    fix q assume q: "q \<in> set (py_range ?N)"
    then have "dst q \<noteq> env_for_partition meta_table mp" using meta[of mp] by (metis imageI)
    then show "fs s' (dst q) = D q" using c q by (simp add: fs')
  qed
  have 3: "\<forall>path. path \<notin> dst ` set (py_range ?N) \<longrightarrow>
           path \<noteq> env_for_partition meta_table mp \<longrightarrow> fs s' path = fs s path"
  proof (intro allI impI)
    fix path assume a: "path \<notin> dst ` set (py_range ?N)" and b: "path \<noteq> env_for_partition meta_table mp"
    from f a have "fs s2 path = fs ?s1 path" by blast
    then show "fs s' path = fs s path" using b by (simp add: fs')
  qed
  have 4: "fs s' (env_for_partition meta_table mp) = db_put okb nb (fs s (env_for_partition meta_table mp))"
    using f[rule_format, OF meta[of mp]] by (simp add: fs')
  have 5: "job_id s' = job_id s" "uuid_calls s' = Suc (uuid_calls s)" "urandom_calls s' = urandom_calls s"
    using o by (simp_all add: s'_def)
  from 1 2 3 4 5 show ?thesis by blast
qed

lemma other_partition_path:
  "env_for_partition T q \<notin> (\<lambda>q. (ty, ns, nm, q)) ` (set (py_range n) - {q})"
  by (auto simp: env_for_partition_def)

lemma registry_key_okD:
  assumes "registry_key_ok L ty namespace name"
  obtains k_bytes where "pickle_dumps L (PyStr (table_key ty namespace name)) = Some k_bytes" "valid_key k_bytes"
  using assms by (auto simp: registry_key_ok_def split: option.splits)

lemma union_equal_partitions:
  assumes eq: "t_partitions other = t_partitions self"
    and N: "1 \<le> t_partitions self"
    and vks: "valid_keys self s" "valid_keys other s"
    and pv: "pickled_values L self s" "pickled_values L other s"
    and rt: "pickle_roundtrip L"
    and pk: "registry_key_ok L StoreType_IN_MEMORY (job_id s) (uuid1 L (uuid_calls s))"
            "pickle_dumps L (PyInt (t_partitions self)) \<noteq> None"
    and fresh: "fresh_name L s (uuid1 L (uuid_calls s))"
  shows "\<exists>s'. union L self other union_default s
        = Some (Inr (\<lparr>t_type = StoreType_IN_MEMORY, t_namespace = job_id s,
             t_name = uuid1 L (uuid_calls s), t_partitions = t_partitions self\<rparr>, s')) \<and>
      (\<forall>q\<in>set (py_range (t_partitions self)). \<forall>k v.
          distinct (map fst (fs s (env_for_partition self q))) \<longrightarrow>
          (k, v) \<in> set (fs s (env_for_partition self q)) \<longrightarrow>
          db_get k (fs s' (StoreType_IN_MEMORY, job_id s, uuid1 L (uuid_calls s), q)) = Some v)"
proof -
  let ?N = "t_partitions self"
  let ?fid = "uuid1 L (uuid_calls s)"
  define dst :: "int \<Rightarrow> path" where "dst = (\<lambda>q. (StoreType_IN_MEMORY, job_id s, ?fid, q))"
  define D where "D = (\<lambda>q. projr (the (union_right (fs s (env_for_partition other q))
     (projr (the (union_left L union_default (fs s (env_for_partition other q))
        (fs s (env_for_partition self q)) (fs s (dst q))))))))"
  from pk(1) obtain okb where okb: "pickle_dumps L (PyStr (table_key StoreType_IN_MEMORY (job_id s) ?fid)) = Some okb"
    and vk: "valid_key okb" by (rule registry_key_okD)
  from pk(2) obtain nb where nb: "pickle_dumps L (PyInt ?N) = Some nb" by auto
  from rt nb have nl: "pickle_loads L nb = Some (PyInt ?N)" by (simp add: pickle_roundtrip_def)
  from fresh okb have fr: "db_get okb (fs s (env_for_partition meta_table q)) = None" for q
    by (simp add: fresh_name_def)
  have both: "\<exists>d d'. union_left L union_default (fs s (env_for_partition other q))
         (fs s (env_for_partition self q)) (fs s (dst q)) = Some (Inr d) \<and>
       union_right (fs s (env_for_partition other q)) d = Some (Inr d') \<and>
       (\<forall>k v. distinct (map fst (fs s (env_for_partition self q))) \<longrightarrow>
           (k, v) \<in> set (fs s (env_for_partition self q)) \<longrightarrow> db_get k d' = Some v)"
    if q: "q \<in> set (py_range ?N)" for q
  proof -
    have a: "\<forall>e\<in>set (fs s (env_for_partition self q)). is_pickle L (snd e)"
      using pv(1) q unfolding pickled_values_def by blast
    have b: "\<forall>e\<in>set (fs s (env_for_partition other q)). is_pickle L (snd e)"
      using pv(2) q eq unfolding pickled_values_def by simp
    have c: "\<forall>e\<in>set (fs s (env_for_partition self q)). valid_key (fst e)"
      using vks(1) q unfolding valid_keys_def by blast
    have d: "\<forall>e\<in>set (fs s (env_for_partition other q)). valid_key (fst e)"
      using vks(2) q eq unfolding valid_keys_def by simp
    from union_left_default[OF a b c, of "fs s (dst q)"] obtain d1 where
      l: "union_left L union_default (fs s (env_for_partition other q))
         (fs s (env_for_partition self q)) (fs s (dst q)) = Some (Inr d1)"
      and i: "\<forall>k v. distinct (map fst (fs s (env_for_partition self q))) \<longrightarrow>
           (k, v) \<in> set (fs s (env_for_partition self q)) \<longrightarrow> db_get k d1 = Some v" by blast
    from union_right_keeps[OF d, of d1] obtain d2 where
      r: "union_right (fs s (env_for_partition other q)) d1 = Some (Inr d2)"
      and k: "\<forall>k v. db_get k d1 = Some v \<longrightarrow> db_get k d2 = Some v" by blast
    from l r i k show ?thesis by blast
  qed
  have Dq: "\<forall>k v. distinct (map fst (fs s (env_for_partition self q))) \<longrightarrow>
           (k, v) \<in> set (fs s (env_for_partition self q)) \<longrightarrow> db_get k (D q) = Some v"
    if q: "q \<in> set (py_range ?N)" for q
    using both[OF q] by (auto simp: D_def)
  have step: "do_union L union_default (env_for_partition self q) (env_for_partition other q) (dst q) sb
      = Some (Inr (update_env (dst q) (D q) sb))"
    if q: "q \<in> set (py_range ?N)"
      and agree: "\<forall>path. path \<notin> dst ` (set (py_range ?N) - {q}) \<longrightarrow> fs sb path = fs s path" for q sb
  proof -
    have 1: "fs sb (env_for_partition self q) = fs s (env_for_partition self q)"
      using agree other_partition_path[of self q] unfolding dst_def by blast
    have 2: "fs sb (env_for_partition other q) = fs s (env_for_partition other q)"
      using agree other_partition_path[of other q] unfolding dst_def by blast
    have "dst q \<notin> dst ` (set (py_range ?N) - {q})" by (auto simp: dst_def)
    with agree have 3: "fs sb (dst q) = fs s (dst q)" by blast
    from both[OF q] obtain d d' where d: "union_left L union_default (fs s (env_for_partition other q))
         (fs s (env_for_partition self q)) (fs s (dst q)) = Some (Inr d)"
      and d': "union_right (fs s (env_for_partition other q)) d = Some (Inr d')" by blast
    show ?thesis by (simp add: do_union_def 1 2 3 d d' D_def ret_def)
  qed
  from derived_table_effect[where L = L and s = s and fid = ?fid and dst = dst and self = self and D = D
      and do_func = "\<lambda>p. do_union L union_default (env_for_partition self p) (env_for_partition other p)"
      and okb = okb and nb = nb, OF refl dst_def N step okb vk nb nl fr]
  obtain s' where r: "derived_table L self
        (\<lambda>p. do_union L union_default (env_for_partition self p) (env_for_partition other p)) s
        = Some (Inr (\<lparr>t_type = StoreType_IN_MEMORY, t_namespace = job_id s, t_name = ?fid,
                      t_partitions = ?N\<rparr>, s'))"
    and c: "\<forall>q\<in>set (py_range ?N). fs s' (dst q) = D q"
    by blast
  have "union L self other union_default s
        = Some (Inr (\<lparr>t_type = StoreType_IN_MEMORY, t_namespace = job_id s, t_name = ?fid,
                      t_partitions = ?N\<rparr>, s'))"
    using r eq by (subst union.simps) simp
  moreover have "\<forall>q\<in>set (py_range ?N). \<forall>k v.
          distinct (map fst (fs s (env_for_partition self q))) \<longrightarrow>
          (k, v) \<in> set (fs s (env_for_partition self q)) \<longrightarrow>
          db_get k (fs s' (StoreType_IN_MEMORY, job_id s, ?fid, q)) = Some v"
  proof
    fix q assume q: "q \<in> set (py_range ?N)"
    with c have "fs s' (StoreType_IN_MEMORY, job_id s, ?fid, q) = D q" by (simp add: dst_def)
    with Dq[OF q] show "\<forall>k v. distinct (map fst (fs s (env_for_partition self q))) \<longrightarrow>
          (k, v) \<in> set (fs s (env_for_partition self q)) \<longrightarrow>
          db_get k (fs s' (StoreType_IN_MEMORY, job_id s, ?fid, q)) = Some v" by simp
  qed
  ultimately show ?thesis by blast
qed

lemma byte_char: "char_of (unat (word_of_nat (of_char c :: nat) :: 8 word)) = c"
  by (simp add: unat_of_nat)

lemma test_libs_roundtrip: "pickle_roundtrip test_libs"
  unfolding pickle_roundtrip_def
proof (intro allI impI)
  fix x b assume d: "pickle_dumps test_libs x = Some b"
  show "pickle_loads test_libs b = Some x"
  proof (cases x)
    case (PyInt n)
    with d show ?thesis
      by (auto simp: test_libs_def uint_word_of_int split: if_splits)
  next
    case (PyStr s)
    with d show ?thesis
      by (auto simp: test_libs_def comp_def byte_char map_idI)
  qed (use d in \<open>simp_all add: test_libs_def\<close>)
qed

lemma pickle_roundtrip_inj:
  assumes "pickle_roundtrip L" "pickle_dumps L x = Some b" "pickle_dumps L y = Some b"
  shows "x = y"
  using assms unfolding pickle_roundtrip_def by (metis option.inject)

lemma env_meta_inj: "env_for_partition meta_table q = env_for_partition meta_table q' \<longleftrightarrow> q = q'"
  by (simp add: env_for_partition_def)

lemma sample_entries_total:
  assumes "\<forall>e\<in>set cursor. valid_key (fst e)"
  shows "\<exists>d. sample_entries rand fraction i cursor dst = Some (Inr d)"
  using assms
proof (induction cursor arbitrary: i dst)
  case Nil
  show ?case by (simp add: ret_def)
next
  case (Cons e cursor)
  obtain k v where e: "e = (k, v)" by (cases e)
  from Cons.prems e have vk: "valid_key k" and rest: "\<forall>e\<in>set cursor. valid_key (fst e)" by auto
  from Cons.IH[OF rest] show ?case by (simp add: e vk)
qed

text \<open>One seeded \<open>sample\<close> on an engine where the name of the derived table is fresh.\<close>

lemma sample_seeded:
  assumes seed: "0 \<le> seed" "seed < 2 ^ 32"
    and N: "1 \<le> t_partitions T"
    and vks: "valid_keys T s"
    and okb: "pickle_dumps L (PyStr (table_key StoreType_IN_MEMORY (job_id s) (uuid1 L (uuid_calls s)))) = Some okb"
    and vk: "valid_key okb"
    and nb: "pickle_dumps L (PyInt (t_partitions T)) = Some nb"
    and nl: "pickle_loads L nb = Some (PyInt (t_partitions T))"
    and fresh: "fresh_name L s (uuid1 L (uuid_calls s))"
  shows "\<exists>s' mp. sample L T fraction (Some seed) s
        = Some (Inr (\<lparr>t_type = StoreType_IN_MEMORY, t_namespace = job_id s,
             t_name = uuid1 L (uuid_calls s), t_partitions = t_partitions T\<rparr>, s')) \<and>
      (\<forall>q\<in>set (py_range (t_partitions T)).
          sample_entries (random_sample L seed) fraction 0 (fs s (env_for_partition T q)) []
            = Some (Inr (fs s' (StoreType_IN_MEMORY, job_id s, uuid1 L (uuid_calls s), q)))) \<and>
      (\<forall>path. path \<notin> (\<lambda>q. (StoreType_IN_MEMORY, job_id s, uuid1 L (uuid_calls s), q)) ` set (py_range (t_partitions T)) \<longrightarrow>
           path \<noteq> env_for_partition meta_table mp \<longrightarrow> fs s' path = fs s path) \<and>
      fs s' (env_for_partition meta_table mp) = db_put okb nb (fs s (env_for_partition meta_table mp)) \<and>
      job_id s' = job_id s \<and> uuid_calls s' = Suc (uuid_calls s)"
proof -
  let ?N = "t_partitions T"
  let ?fid = "uuid1 L (uuid_calls s)"
  define dst :: "int \<Rightarrow> path" where "dst = (\<lambda>q. (StoreType_IN_MEMORY, job_id s, ?fid, q))"
  define D where "D = (\<lambda>q. projr (the (sample_entries (random_sample L seed) fraction 0 (fs s (env_for_partition T q)) [])))"
  from fresh okb have fr: "db_get okb (fs s (env_for_partition meta_table q)) = None" for q
    by (simp add: fresh_name_def)
  from fresh have empty: "fs s (dst q) = []" for q by (simp add: fresh_name_def dst_def)
  have tot: "sample_entries (random_sample L seed) fraction 0 (fs s (env_for_partition T q)) [] = Some (Inr (D q))"
    if q: "q \<in> set (py_range ?N)" for q
  proof -
    have "\<forall>e\<in>set (fs s (env_for_partition T q)). valid_key (fst e)"
      using vks q unfolding valid_keys_def by blast
    from sample_entries_total[OF this, of "random_sample L seed" fraction 0 "[]"]
    show ?thesis by (auto simp: D_def)
  qed
  have step: "do_sample L fraction (Some seed) (env_for_partition T q) (dst q) sb
      = Some (Inr (update_env (dst q) (D q) sb))"
    if q: "q \<in> set (py_range ?N)"
      and agree: "\<forall>path. path \<notin> dst ` (set (py_range ?N) - {q}) \<longrightarrow> fs sb path = fs s path" for q sb
  proof -
    have 1: "fs sb (env_for_partition T q) = fs s (env_for_partition T q)"
      using agree other_partition_path[of T q] unfolding dst_def by blast
    have "dst q \<notin> dst ` (set (py_range ?N) - {q})" by (auto simp: dst_def)
    with agree have 3: "fs sb (dst q) = fs s (dst q)" by blast
    show ?thesis using seed by (simp add: do_sample_def 1 3 empty tot[OF q] ret_def)
  qed
  from derived_table_effect[where L = L and s = s and fid = ?fid and dst = dst and self = T and D = D
      and do_func = "\<lambda>p. do_sample L fraction (Some seed) (env_for_partition T p)"
      and okb = okb and nb = nb, OF refl dst_def N step okb vk nb nl fr]
  obtain s' mp where r: "derived_table L T (\<lambda>p. do_sample L fraction (Some seed) (env_for_partition T p)) s
        = Some (Inr (\<lparr>t_type = StoreType_IN_MEMORY, t_namespace = job_id s, t_name = ?fid,
                      t_partitions = ?N\<rparr>, s'))"
    and c: "\<forall>q\<in>set (py_range ?N). fs s' (dst q) = D q"
    and f: "\<forall>path. path \<notin> dst ` set (py_range ?N) \<longrightarrow>
           path \<noteq> env_for_partition meta_table mp \<longrightarrow> fs s' path = fs s path"
    and m: "fs s' (env_for_partition meta_table mp) = db_put okb nb (fs s (env_for_partition meta_table mp))"
    and o: "job_id s' = job_id s" "uuid_calls s' = Suc (uuid_calls s)"
    by blast
  have c': "\<forall>q\<in>set (py_range ?N).
          sample_entries (random_sample L seed) fraction 0 (fs s (env_for_partition T q)) []
            = Some (Inr (fs s' (StoreType_IN_MEMORY, job_id s, ?fid, q)))"
  proof
    fix q assume q: "q \<in> set (py_range ?N)"
    with c have "fs s' (StoreType_IN_MEMORY, job_id s, ?fid, q) = D q" by (simp add: dst_def)
    with tot[OF q] show "sample_entries (random_sample L seed) fraction 0 (fs s (env_for_partition T q)) []
            = Some (Inr (fs s' (StoreType_IN_MEMORY, job_id s, ?fid, q)))" by simp
  qed
  from r c' f m o show ?thesis unfolding sample_def dst_def by blast
qed

lemmas engine_eval = tbl put_if_absent_def get_def put_def to_bytes_def from_bytes_def kv_to_bytes_def
  serialize_def deserialize_def meta_table_def env_for_partition_def table_key_def
  StoreType_LMDB_def StoreType_IN_MEMORY_def update_env_def put_all_def Let_def
  save_as_def derived_table_def new_uuid_def count_entries_def collect_def merge_cursors_def
  heapify_def heapreplace_def heappop_def yield_item_def do_union_def do_subtract_by_key_def
  union_default_def py_range_def upt_rec db_get_def try_put_def txn_put_def txn_get_def
  valid_key_def max_key_size_def

section \<open>Claims\<close>

text \<open>
  C3. For every key and every partition count \<open>N \<ge> 1\<close> the partition hasher returns
  an index in \<open>[0, N)\<close>; the index is a function of the key and \<open>N\<close> alone (the
  model has no other input than the digest function); for \<open>N < 1\<close> the hasher raises the
  invalid-argument error (ValueError).
\<close>

theorem C3_hash_key_to_partition_range:
  "(1 \<le> N \<longrightarrow>
      (\<exists>p. hash_key_to_partition sha1 key N = Some (Inr p) \<and> 0 \<le> p \<and> p < N)) \<and>
   (N < 1 \<longrightarrow> hash_key_to_partition sha1 key N = Some (Inl ValueError))"
  using hash_range[of N sha1 key] hash_invalid[of N sha1 key] by blast

theorem C3_hash_key_to_partition_range_witness:
  "(\<exists>p. hash_key_to_partition (\<lambda>_. replicate 20 7) [1, 2] 10 = Some (Inr p) \<and> 0 \<le> p \<and> p < 10) \<and>
   hash_key_to_partition (\<lambda>_. replicate 20 7) [1, 2] 0 = Some (Inl ValueError)"
  using C3_hash_key_to_partition_range[of 10 "\<lambda>_. replicate 20 7" "[1, 2]"]
    C3_hash_key_to_partition_range[of 0 "\<lambda>_. replicate 20 7" "[1, 2]"]
  by simp

text \<open>
  C7 (amended). For every table with at least one partition, every key \<open>k\<close> that pickle
  encodes in 1 to 511 bytes, which are the keys LMDB stores, and every value \<open>v\<close> that
  pickle encodes and decodes back from its encoding: \<open>put(k, v)\<close> returns True and the
  \<open>get(k)\<close> that follows returns \<open>v\<close>. For a key with another encoding \<open>put\<close> raises
  BadValsizeError.
\<close>

theorem C7_put_then_get:
  assumes "1 \<le> t_partitions T"
    and "pickle_dumps L k = Some k_bytes" and "pickle_dumps L v = Some v_bytes"
    and "pickle_loads L v_bytes = Some v"
  shows "(valid_key k_bytes \<longrightarrow>
           (\<exists>s'. put L T k v True s = Some (Inr (True, s')) \<and> get L T k True s' = Some (Inr v))) \<and>
         (\<not> valid_key k_bytes \<longrightarrow> put L T k v True s = Some (Inl BadValsizeError))"
  using put_then_get[OF assms(1,2) _ assms(3,4)] put_invalid_key[OF assms(1,2) _ assms(3)]
  by blast

theorem C7_put_then_get_witness:
  "\<exists>s'. put test_libs \<lparr>t_type = ''LMDB'', t_namespace = ''ns'', t_name = ''a'', t_partitions = 3\<rparr>
           (PyInt 5) (PyInt 7) True empty_engine = Some (Inr (True, s')) \<and>
        get test_libs \<lparr>t_type = ''LMDB'', t_namespace = ''ns'', t_name = ''a'', t_partitions = 3\<rparr>
           (PyInt 5) True s' = Some (Inr (PyInt 7))"
  by (rule C7_put_then_get[where k_bytes = "[73, 5]" and v_bytes = "[73, 7]", THEN conjunct1, rule_format])
     (simp_all add: valid_key_def max_key_size_def)

text \<open>
  The claim as stated fails for a key whose encoding is longer than 511 bytes: \<open>put\<close> of a
  string of 511 characters raises, and nothing is stored.
\<close>

theorem C7_counterexample:
  "put test_libs \<lparr>t_type = ''LMDB'', t_namespace = ''ns'', t_name = ''a'', t_partitions = 3\<rparr>
     (PyStr (replicate 511 CHR ''x'')) (PyInt 1) True empty_engine = Some (Inl BadValsizeError)"
  by (simp add: put_def kv_to_bytes_def to_bytes_def serialize_def txn_put_def valid_key_def
      max_key_size_def raise_def)

text \<open>
  C4 (amended). The registry key holds the tier, so first-writer-wins is per tier, and the
  registry key is a key of LMDB, so it has to be encoded in 1 to 511 bytes: when the
  registry has no entry for (tier, namespace, name) and the encoded registry key is such
  a key, \<open>table(name, ns, N, persistent)\<close> returns a table with \<open>N\<close> partitions, and every
  later \<open>table(name, ns, M, persistent)\<close> with the same persistence flag returns that same
  table, whatever \<open>M\<close> is, and leaves the engine unchanged. When the encoded registry key
  is not such a key, the first call raises BadValsizeError.
\<close>

theorem C4_first_writer_wins:
  assumes "pickle_dumps L (PyStr (table_key (if persistent then StoreType_LMDB else StoreType_IN_MEMORY) namespace name)) = Some k_bytes"
    and "pickle_dumps L (PyInt N) = Some v_bytes" and "pickle_loads L v_bytes = Some (PyInt N)"
    and "\<And>p. db_get k_bytes (fs s (env_for_partition meta_table p)) = None"
  shows "(valid_key k_bytes \<longrightarrow>
          (\<exists>T1 s1. table L name namespace N persistent s = Some (Inr (T1, s1)) \<and> t_partitions T1 = N \<and>
             (\<forall>M. table L name namespace M persistent s1 = Some (Inr (T1, s1))))) \<and>
         (\<not> valid_key k_bytes \<longrightarrow> table L name namespace N persistent s = Some (Inl BadValsizeError))"
proof (intro conjI impI)
  assume vk: "valid_key k_bytes"
  from table_first_state[OF assms(1) vk assms(2,3,4)] obtain s1 where
    t: "table L name namespace N persistent s
     = Some (Inr (\<lparr>t_type = (if persistent then StoreType_LMDB else StoreType_IN_MEMORY),
           t_namespace = namespace, t_name = name, t_partitions = N\<rparr>, s1))" by blast
  from table_again[OF t] t
  show "\<exists>T1 s1. table L name namespace N persistent s = Some (Inr (T1, s1)) \<and> t_partitions T1 = N \<and>
           (\<forall>M. table L name namespace M persistent s1 = Some (Inr (T1, s1)))" by auto
next
  assume "\<not> valid_key k_bytes"
  from table_invalid_key[OF assms(1) this assms(2,4)]
  show "table L name namespace N persistent s = Some (Inl BadValsizeError)" .
qed

theorem C4_first_writer_wins_witness:
  "\<exists>T1 s1. table test_libs ''a'' ''ns'' 4 True empty_engine = Some (Inr (T1, s1)) \<and> t_partitions T1 = 4 \<and>
           (\<forall>M. table test_libs ''a'' ''ns'' M True s1 = Some (Inr (T1, s1)))"
  by (rule C4_first_writer_wins[where k_bytes = "83 # map (\<lambda>c. word_of_nat (of_char c)) ''LMDB.ns.a''" and v_bytes = "[73, 4]",
        THEN conjunct1, rule_format])
     (simp_all add: empty_engine_def db_get_def table_key_def StoreType_LMDB_def valid_key_def max_key_size_def)

text \<open>
  The claim as stated fails when the second call has the other persistence flag: after
  \<open>table("a", "ns", 4, persistent=True)\<close> the call \<open>table("a", "ns", 2, persistent=False)\<close>
  returns a table with 2 partitions.
\<close>

theorem C4_counterexample: "other_tier_scenario = Some (Inr 2)"
  unfolding other_tier_scenario_def by (simp add: test_eval ret_def)

text \<open>
  C2 (amended). The registry is the table of type \<open>__META__\<close>, namespace \<open>__META__\<close>, name
  \<open>fragments\<close> with 10 partitions: whenever \<open>table(name, ns, n, persistent)\<close> returns a table
  \<open>T\<close>, one of these 10 partitions maps the pickled string \<open>tier.ns.name\<close> to the pickled
  partition count of \<open>T\<close>, where the tier is \<open>LMDB\<close> for a persistent table and \<open>IN_MEMORY\<close>
  otherwise.
\<close>

theorem C2_meta_registry:
  assumes "table L name namespace n persistent s = Some (Inr (T, s1))"
  shows "\<exists>k_bytes p b.
      pickle_dumps L (PyStr ((if persistent then ''LMDB'' else ''IN_MEMORY'') @ ''.'' @ namespace @ ''.'' @ name)) = Some k_bytes \<and>
      0 \<le> p \<and> p < 10 \<and>
      db_get k_bytes (fs s1 (''__META__'', ''__META__'', ''fragments'', p)) = Some b \<and>
      pickle_loads L b = Some (PyInt (t_partitions T))"
  using assms
proof (rule table_returns)
  fix k_bytes p b
  assume kb: "pickle_dumps L (PyStr (table_key (t_type T) namespace name)) = Some k_bytes"
    and p: "hash_key_to_partition (sha1_digest L) k_bytes 10 = Some (Inr p)"
    and ne: "k_bytes \<noteq> []"
    and b: "db_get k_bytes (fs s1 (env_for_partition meta_table p)) = Some b"
    and lb: "pickle_loads L b = Some (PyInt (t_partitions T))"
    and ty: "t_type T = (if persistent then StoreType_LMDB else StoreType_IN_MEMORY)"
  from hash_range[of 10 "sha1_digest L" k_bytes] p have pr: "0 \<le> p" "p < 10" by auto
  have "table_key (t_type T) namespace name
      = (if persistent then ''LMDB'' else ''IN_MEMORY'') @ ''.'' @ namespace @ ''.'' @ name"
    by (simp add: ty table_key_def StoreType_LMDB_def StoreType_IN_MEMORY_def)
  with kb have kb': "pickle_dumps L (PyStr ((if persistent then ''LMDB'' else ''IN_MEMORY'') @ ''.'' @ namespace @ ''.'' @ name)) = Some k_bytes"
    by simp
  have "env_for_partition meta_table p = (''__META__'', ''__META__'', ''fragments'', p)"
    by (simp add: env_for_partition_def meta_table_def)
  with b have b': "db_get k_bytes (fs s1 (''__META__'', ''__META__'', ''fragments'', p)) = Some b" by simp
  from kb' pr b' lb show ?thesis by blast
qed

theorem C2_meta_registry_witness:
  "\<exists>k_bytes p b.
      pickle_dumps test_libs (PyStr ((if True then ''LMDB'' else ''IN_MEMORY'') @ ''.'' @ ''ns'' @ ''.'' @ ''a'')) = Some k_bytes \<and>
      0 \<le> p \<and> p < 10 \<and>
      db_get k_bytes (fs (snd (projr (the (table test_libs ''a'' ''ns'' 4 True empty_engine))))
         (''__META__'', ''__META__'', ''fragments'', p)) = Some b \<and>
      pickle_loads test_libs b = Some (PyInt 4)"
proof -
  have "\<exists>T s1. table test_libs ''a'' ''ns'' 4 True empty_engine = Some (Inr (T, s1)) \<and> t_partitions T = 4"
    by (simp add: test_eval ret_def)
  then obtain T s1 where t: "table test_libs ''a'' ''ns'' 4 True empty_engine = Some (Inr (T, s1))"
    and n: "t_partitions T = 4" by blast
  from C2_meta_registry[OF t] show ?thesis by (simp add: t n)
qed

theorem C2_counterexample:
  "t_name meta_table \<noteq> ''__META__'' \<and> t_type meta_table \<noteq> StoreType_LMDB"
  by (simp add: meta_table_def StoreType_LMDB_def)


text \<open>
  C6. On a table with two partitions, \<open>put_all([(1, 2), 7, (4, 5)])\<close> opens a write
  transaction on both partitions, puts the first pair, and raises TypeError when the loop
  header unpacks \<open>7\<close>: the transactions are neither committed nor aborted. The same
  happens with an iterable that yields \<open>(1, 2)\<close> and then raises, as the generator of
  \<open>collect\<close> does at an entry that is not a pickle.
\<close>

theorem C6_put_all_leaves_transactions_open:
  "put_all test_libs \<lparr>t_type = ''LMDB'', t_namespace = ''ns'', t_name = ''a'', t_partitions = 2\<rparr>
      ([PyTuple [PyInt 1, PyInt 2], PyInt 7, PyTuple [PyInt 4, PyInt 5]], None) True empty_engine
     = Some ([Begin 0, Begin 1, Put 0 [73, 1] [73, 2]], Inl TypeError) \<and>
   put_all test_libs \<lparr>t_type = ''LMDB'', t_namespace = ''ns'', t_name = ''a'', t_partitions = 2\<rparr>
      ([PyTuple [PyInt 1, PyInt 2]], Some UnpicklingError) True empty_engine
     = Some ([Begin 0, Begin 1, Put 0 [73, 1] [73, 2]], Inl UnpicklingError)"
  by (simp add: put_all_eval)


text \<open>
  C5. For every table whose partitions hold their entries in key order (as the storage
  does) and hold every key in the partition the hasher gives it (as every write of the
  engine does), the raw entries that \<open>collect\<close> yields are sorted by key and no key occurs twice.
\<close>

theorem C5_collect_sorted_without_duplicates:
  assumes "table_ok L T s"
  shows "sorted (map fst (collect T s)) \<and> distinct (map fst (collect T s))"
  using collect_sorted_distinct[OF assms] by simp

theorem C5_collect_sorted_without_duplicates_witness:
  "table_ok test_libs \<lparr>t_type = ''LMDB'', t_namespace = ''ns'', t_name = ''a'', t_partitions = 2\<rparr> two_entries \<and>
   collect \<lparr>t_type = ''LMDB'', t_namespace = ''ns'', t_name = ''a'', t_partitions = 2\<rparr> two_entries
     = [([73, 2], [73, 3]), ([73, 5], [73, 1])] \<and>
   sorted (map fst (collect \<lparr>t_type = ''LMDB'', t_namespace = ''ns'', t_name = ''a'', t_partitions = 2\<rparr> two_entries)) \<and>
   distinct (map fst (collect \<lparr>t_type = ''LMDB'', t_namespace = ''ns'', t_name = ''a'', t_partitions = 2\<rparr> two_entries))"
proof -
  let ?T = "\<lparr>t_type = ''LMDB'', t_namespace = ''ns'', t_name = ''a'', t_partitions = 2\<rparr>"
  have ok: "table_ok test_libs ?T two_entries"
    by (simp add: table_ok_def two_entries_fs env_for_partition_def db_sorted_def)
  have c: "collect ?T two_entries = [([73, 2], [73, 3]), ([73, 5], [73, 1])]"
    by (simp add: collect_def two_entries_fs env_for_partition_def merge_cursors_def heapify_def
        heapreplace_def heappop_def)
  from C5_collect_sorted_without_duplicates[OF ok] ok c show ?thesis by simp
qed


text \<open>
  C9. \<open>take(n)\<close> with \<open>n \<le> 0\<close> is \<open>take(1)\<close>. On a table with at least one entry it decodes
  the first entry of the collect sequence and returns the list of that one item (of its
  key when \<open>keysOnly\<close> is set); on a table without entries \<open>first()\<close> returns None.
\<close>

theorem C9_take_nonpositive_and_first:
  assumes "n \<le> 0"
  shows "take_n L T n keysOnly use_serialize s = take_n L T 1 keysOnly use_serialize s \<and>
    (0 < count_entries T s \<longrightarrow>
       take_n L T n keysOnly use_serialize s =
         bnd (yield_item L use_serialize (hd (collect T s)))
           (\<lambda>(k, v). ret [if keysOnly then k else PyTuple [k, v]])) \<and>
    (count_entries T s = 0 \<longrightarrow> first L T keysOnly use_serialize s = ret PyNone)"
proof (intro conjI impI)
  show 1: "take_n L T n keysOnly use_serialize s = take_n L T 1 keysOnly use_serialize s"
    using assms by (rule take_n_nonpositive)
  show "take_n L T n keysOnly use_serialize s =
         bnd (yield_item L use_serialize (hd (collect T s)))
           (\<lambda>(k, v). ret [if keysOnly then k else PyTuple [k, v]])" if "0 < count_entries T s"
  proof -
    from that obtain e es where "collect T s = e # es" by (rule collect_nonempty)
    then show ?thesis unfolding 1 take_1 by simp
  qed
  show "first L T keysOnly use_serialize s = ret PyNone" if "count_entries T s = 0"
    using collect_empty[OF that] by (simp add: first_def take_1)
qed

theorem C9_take_nonpositive_and_first_witness:
  "take_n test_libs \<lparr>t_type = ''LMDB'', t_namespace = ''ns'', t_name = ''a'', t_partitions = 2\<rparr> (- 3) False True two_entries
     = Some (Inr [PyTuple [PyInt 2, PyInt 3]]) \<and>
   first test_libs \<lparr>t_type = ''LMDB'', t_namespace = ''ns'', t_name = ''a'', t_partitions = 2\<rparr> False True empty_engine
     = Some (Inr PyNone)"
proof -
  let ?T = "\<lparr>t_type = ''LMDB'', t_namespace = ''ns'', t_name = ''a'', t_partitions = 2\<rparr>"
  have c: "collect ?T two_entries = [([73, 2], [73, 3]), ([73, 5], [73, 1])]"
    by (simp add: collect_def two_entries_fs env_for_partition_def merge_cursors_def heapify_def
        heapreplace_def heappop_def)
  have n: "0 < count_entries ?T two_entries"
    by (simp add: count_entries_def two_entries_fs env_for_partition_def)
  have e: "count_entries ?T empty_engine = 0"
    by (simp add: count_entries_def empty_engine_def)
  have le: "(- 3 :: int) \<le> 0" by simp
  note r = C9_take_nonpositive_and_first[OF le, of test_libs ?T False True]
  have "take_n test_libs ?T (- 3) False True two_entries =
         bnd (yield_item test_libs True (hd (collect ?T two_entries)))
           (\<lambda>(k, v). ret [if False then k else PyTuple [k, v]])"
    by (rule r[THEN conjunct2, THEN conjunct1, rule_format, OF n])
  then have "take_n test_libs ?T (- 3) False True two_entries = Some (Inr [PyTuple [PyInt 2, PyInt 3]])"
    by (simp add: c yield_item_def deserialize_def ret_def)
  moreover have "first test_libs ?T False True empty_engine = ret PyNone"
    by (rule r[THEN conjunct2, THEN conjunct2, rule_format, OF e])
  ultimately show ?thesis by (simp add: ret_def)
qed

text \<open>
  C10. For tables \<open>L\<close> and \<open>R\<close> with the same partition count (at least one), whose keys
  are keys that LMDB stores and whose values are pickles, \<open>L\<close> holding its keys in the
  partitions the hasher gives them, and the name drawn for the output fresh, with a
  registry key that LMDB stores: \<open>union(L, R)\<close> with the default merge function returns a
  table, and for every key present in both \<open>L\<close> and \<open>R\<close> (in the partition with the same
  index) \<open>get\<close> on the output returns what \<open>get\<close> on \<open>L\<close> returns.
\<close>

theorem C10_union_keeps_left:
  assumes eq: "t_partitions other = t_partitions self"
    and N: "1 \<le> t_partitions self"
    and ok: "table_ok L self s"
    and vks: "valid_keys self s" "valid_keys other s"
    and pv: "pickled_values L self s" "pickled_values L other s"
    and rt: "pickle_roundtrip L"
    and pk: "registry_key_ok L StoreType_IN_MEMORY (job_id s) (uuid1 L (uuid_calls s))"
            "pickle_dumps L (PyInt (t_partitions self)) \<noteq> None"
    and fresh: "fresh_name L s (uuid1 L (uuid_calls s))"
    and k: "pickle_dumps L k = Some k_bytes"
    and p: "p \<in> set (py_range (t_partitions self))"
    and inl: "db_get k_bytes (fs s (env_for_partition self p)) = Some left_v_bytes"
    and inr: "db_get k_bytes (fs s (env_for_partition other p)) = Some right_v_bytes"
  shows "\<exists>out s' v. union L self other union_default s = Some (Inr (out, s')) \<and>
     get L self k True s = Some (Inr v) \<and> get L out k True s' = Some (Inr v)"
proof -
  let ?N = "t_partitions self"
  let ?out = "\<lparr>t_type = StoreType_IN_MEMORY, t_namespace = job_id s,
             t_name = uuid1 L (uuid_calls s), t_partitions = ?N\<rparr>"
  from inl have m: "(k_bytes, left_v_bytes) \<in> set (fs s (env_for_partition self p))"
    by (rule db_get_in_set)
  from ok p m have h: "hash_key_to_partition (sha1_digest L) k_bytes ?N = Some (Inr p)"
    unfolding table_ok_def by fastforce
  from ok p have dist: "distinct (map fst (fs s (env_for_partition self p)))"
    unfolding table_ok_def by (blast intro: db_sorted_distinct)
  from pv(1) p m have "is_pickle L left_v_bytes" unfolding pickled_values_def by fastforce
  then obtain v where v: "pickle_loads L left_v_bytes = Some v" by (rule is_pickleD)
  from vks(1) p m have "valid_key k_bytes" unfolding valid_keys_def by fastforce
  then have ne: "k_bytes \<noteq> []" by (rule valid_key_nonempty)
  from union_equal_partitions[OF eq N vks pv rt pk fresh] obtain s' where
    u: "union L self other union_default s = Some (Inr (?out, s'))"
    and c: "\<forall>q\<in>set (py_range ?N). \<forall>k v.
          distinct (map fst (fs s (env_for_partition self q))) \<longrightarrow>
          (k, v) \<in> set (fs s (env_for_partition self q)) \<longrightarrow>
          db_get k (fs s' (StoreType_IN_MEMORY, job_id s, uuid1 L (uuid_calls s), q)) = Some v"
    by blast
  from c p dist m have o: "db_get k_bytes (fs s' (env_for_partition ?out p)) = Some left_v_bytes"
    by (simp add: env_for_partition_def)
  have 1: "get L self k True s = Some (Inr v)"
    by (simp add: get_def to_bytes_def from_bytes_def serialize_Some deserialize_Some k h inl v ne ret_def)
  have 2: "get L ?out k True s' = Some (Inr v)"
    using o by (simp add: get_def to_bytes_def from_bytes_def serialize_Some deserialize_Some k h v ne ret_def)
  from u 1 2 show ?thesis by blast
qed

theorem C10_union_keeps_left_witness:
  "\<exists>out s' v. union test_libs left_table \<lparr>t_type = ''LMDB'', t_namespace = ''ns'', t_name = ''right'', t_partitions = 1\<rparr>
        union_default overlap_engine = Some (Inr (out, s')) \<and>
     get test_libs left_table (PyInt 2) True overlap_engine = Some (Inr v) \<and>
     get test_libs out (PyInt 2) True s' = Some (Inr v)"
  by (rule C10_union_keeps_left[where k_bytes = "[73, 2]" and p = 0 and left_v_bytes = "[73, 3]"
        and right_v_bytes = "[73, 9]"])
     (simp_all add: left_table_def overlap_engine_def table_ok_def pickled_values_def is_pickle_def
        valid_keys_def registry_key_ok_def valid_key_def max_key_size_def table_key_def
        test_libs_roundtrip fresh_name_def env_for_partition_def db_sorted_def db_get_def
        StoreType_IN_MEMORY_def meta_table_def py_range_def)


text \<open>
  C8 (amended). For every table with at least one partition whose keys are keys that
  LMDB stores, every fraction and every integer seed that the generator accepts
  (\<open>0 \<le> seed < 2 ^ 32\<close>), with the two names drawn for the outputs fresh and distinct and
  with registry keys that LMDB stores: \<open>sample(fraction, seed)\<close> twice on the same table
  returns two tables, each partition of the first output holds the entries of the source
  partition whose draw is below the fraction, the draws being a function of the seed and
  of the position of the entry in the partition, and each partition of the second output
  holds the same entries as that partition of the first.
\<close>

theorem C8_sample_seeded_twice:
  assumes seed: "0 \<le> seed" "seed < 2 ^ 32"
    and N: "1 \<le> t_partitions T"
    and vks: "valid_keys T s"
    and rt: "pickle_roundtrip L"
    and pk: "registry_key_ok L StoreType_IN_MEMORY (job_id s) (uuid1 L (uuid_calls s))"
            "registry_key_ok L StoreType_IN_MEMORY (job_id s) (uuid1 L (Suc (uuid_calls s)))"
            "pickle_dumps L (PyInt (t_partitions T)) \<noteq> None"
    and fresh: "fresh_name L s (uuid1 L (uuid_calls s))" "fresh_name L s (uuid1 L (Suc (uuid_calls s)))"
    and ne: "uuid1 L (Suc (uuid_calls s)) \<noteq> uuid1 L (uuid_calls s)"
    and T: "t_type T \<noteq> t_type meta_table"
           "(t_type T, t_namespace T, t_name T) \<noteq> (StoreType_IN_MEMORY, job_id s, uuid1 L (uuid_calls s))"
  shows "\<exists>T1 s1 T2 s2.
      sample L T fraction (Some seed) s = Some (Inr (T1, s1)) \<and>
      sample L T fraction (Some seed) s1 = Some (Inr (T2, s2)) \<and>
      t_partitions T1 = t_partitions T \<and> t_partitions T2 = t_partitions T \<and>
      (\<forall>p\<in>set (py_range (t_partitions T)).
         sample_entries (random_sample L seed) fraction 0 (fs s (env_for_partition T p)) []
           = Some (Inr (fs s1 (env_for_partition T1 p))) \<and>
         fs s2 (env_for_partition T2 p) = fs s1 (env_for_partition T1 p))"
proof -
  let ?N = "t_partitions T"
  let ?n1 = "uuid1 L (uuid_calls s)"
  let ?n2 = "uuid1 L (Suc (uuid_calls s))"
  let ?T1 = "\<lparr>t_type = StoreType_IN_MEMORY, t_namespace = job_id s, t_name = ?n1, t_partitions = ?N\<rparr>"
  let ?T2 = "\<lparr>t_type = StoreType_IN_MEMORY, t_namespace = job_id s, t_name = ?n2, t_partitions = ?N\<rparr>"
  from pk(1) obtain okb1 where
    okb1: "pickle_dumps L (PyStr (table_key StoreType_IN_MEMORY (job_id s) ?n1)) = Some okb1"
    and vk1: "valid_key okb1" by (rule registry_key_okD)
  from pk(2) obtain okb2 where
    okb2: "pickle_dumps L (PyStr (table_key StoreType_IN_MEMORY (job_id s) ?n2)) = Some okb2"
    and vk2: "valid_key okb2" by (rule registry_key_okD)
  from pk(3) obtain nb where nb: "pickle_dumps L (PyInt ?N) = Some nb" by auto
  from rt nb have nl: "pickle_loads L nb = Some (PyInt ?N)" by (simp add: pickle_roundtrip_def)
  have kne: "okb2 \<noteq> okb1"
  proof
    assume "okb2 = okb1"
    with pickle_roundtrip_inj[OF rt okb1] okb2
    have "PyStr (table_key StoreType_IN_MEMORY (job_id s) ?n1) = PyStr (table_key StoreType_IN_MEMORY (job_id s) ?n2)"
      by simp
    with ne show False by (simp add: table_key_def)
  qed
  from sample_seeded[OF seed N vks okb1 vk1 nb nl fresh(1), of fraction] obtain s1 mp where
    r1: "sample L T fraction (Some seed) s = Some (Inr (?T1, s1))"
    and c1: "\<forall>q\<in>set (py_range ?N).
            sample_entries (random_sample L seed) fraction 0 (fs s (env_for_partition T q)) []
            = Some (Inr (fs s1 (StoreType_IN_MEMORY, job_id s, ?n1, q)))"
    and f1: "\<forall>path. path \<notin> (\<lambda>q. (StoreType_IN_MEMORY, job_id s, ?n1, q)) ` set (py_range ?N) \<longrightarrow>
           path \<noteq> env_for_partition meta_table mp \<longrightarrow> fs s1 path = fs s path"
    and m1: "fs s1 (env_for_partition meta_table mp) = db_put okb1 nb (fs s (env_for_partition meta_table mp))"
    and j1: "job_id s1 = job_id s" and u1: "uuid_calls s1 = Suc (uuid_calls s)"
    by blast
  have same: "fs s1 path = fs s path"
    if "fst (snd (snd path)) \<noteq> ?n1 \<or> fst path \<noteq> StoreType_IN_MEMORY \<or> fst (snd path) \<noteq> job_id s"
      and "fst path \<noteq> t_type meta_table" for path
  proof -
    have "path \<notin> (\<lambda>q. (StoreType_IN_MEMORY, job_id s, ?n1, q)) ` set (py_range ?N)"
      using that(1) by auto
    moreover have "path \<noteq> env_for_partition meta_table mp"
      using that(2) by (auto simp: env_for_partition_def)
    ultimately show ?thesis using f1 by blast
  qed
  have im: "StoreType_IN_MEMORY \<noteq> t_type meta_table"
    by (simp add: StoreType_IN_MEMORY_def meta_table_def)
  have src: "fs s1 (env_for_partition T q) = fs s (env_for_partition T q)" for q
    using T by (intro same) (auto simp: env_for_partition_def)
  have fresh2: "fresh_name L s1 (uuid1 L (uuid_calls s1))"
    unfolding fresh_name_def u1 j1
  proof (intro conjI allI impI)
    fix q
    have "fs s1 (StoreType_IN_MEMORY, job_id s, ?n2, q) = fs s (StoreType_IN_MEMORY, job_id s, ?n2, q)"
      using ne im by (intro same) simp_all
    then show "fs s1 (StoreType_IN_MEMORY, job_id s, ?n2, q) = []"
      using fresh(2) by (simp add: fresh_name_def)
  next
    fix b q assume "pickle_dumps L (PyStr (table_key StoreType_IN_MEMORY (job_id s) ?n2)) = Some b"
    with okb2 have b: "b = okb2" by simp
    from fresh(2) okb2 have old: "db_get okb2 (fs s (env_for_partition meta_table q)) = None"
      by (simp add: fresh_name_def)
    show "db_get b (fs s1 (env_for_partition meta_table q)) = None"
    proof (cases "q = mp")
      case True
      then show ?thesis using m1 kne old by (simp add: b)
    next
      case False
      then have "env_for_partition meta_table q \<noteq> env_for_partition meta_table mp"
        by (simp add: env_meta_inj)
      moreover have "env_for_partition meta_table q \<notin> (\<lambda>q. (StoreType_IN_MEMORY, job_id s, ?n1, q)) ` set (py_range ?N)"
        using im by (auto simp: env_for_partition_def)
      ultimately have "fs s1 (env_for_partition meta_table q) = fs s (env_for_partition meta_table q)"
        using f1 by blast
      then show ?thesis using old by (simp add: b)
    qed
  qed
  have okb2': "pickle_dumps L (PyStr (table_key StoreType_IN_MEMORY (job_id s1) (uuid1 L (uuid_calls s1)))) = Some okb2"
    using okb2 by (simp add: j1 u1)
  have vks1: "valid_keys T s1" using vks by (simp add: valid_keys_def src)
  from sample_seeded[OF seed N vks1 okb2' vk2 nb nl fresh2, of fraction] obtain s2 where
    r2: "sample L T fraction (Some seed) s1 = Some (Inr (?T2, s2))"
    and c2: "\<forall>q\<in>set (py_range ?N).
            sample_entries (random_sample L seed) fraction 0 (fs s1 (env_for_partition T q)) []
            = Some (Inr (fs s2 (StoreType_IN_MEMORY, job_id s, ?n2, q)))"
    unfolding j1 u1 by blast
  have "\<forall>p\<in>set (py_range ?N).
         sample_entries (random_sample L seed) fraction 0 (fs s (env_for_partition T p)) []
           = Some (Inr (fs s1 (env_for_partition ?T1 p))) \<and>
         fs s2 (env_for_partition ?T2 p) = fs s1 (env_for_partition ?T1 p)"
  proof
    fix p assume p: "p \<in> set (py_range ?N)"
    from c1 p have 1: "sample_entries (random_sample L seed) fraction 0 (fs s (env_for_partition T p)) []
            = Some (Inr (fs s1 (StoreType_IN_MEMORY, job_id s, ?n1, p)))" by blast
    from c2 p have 2: "sample_entries (random_sample L seed) fraction 0 (fs s (env_for_partition T p)) []
            = Some (Inr (fs s2 (StoreType_IN_MEMORY, job_id s, ?n2, p)))" by (simp add: src)
    from 1 2 show "sample_entries (random_sample L seed) fraction 0 (fs s (env_for_partition T p)) []
           = Some (Inr (fs s1 (env_for_partition ?T1 p))) \<and>
         fs s2 (env_for_partition ?T2 p) = fs s1 (env_for_partition ?T1 p)"
      by (simp add: env_for_partition_def)
  qed
  with r1 r2 show ?thesis by (intro exI[of _ ?T1] exI[of _ s1] exI[of _ ?T2] exI[of _ s2]) simp
qed

theorem C8_sample_seeded_twice_witness:
  "\<exists>T1 s1 T2 s2.
      sample test_libs left_table (1 / 2) (Some 42) overlap_engine = Some (Inr (T1, s1)) \<and>
      sample test_libs left_table (1 / 2) (Some 42) s1 = Some (Inr (T2, s2)) \<and>
      t_partitions T1 = t_partitions left_table \<and> t_partitions T2 = t_partitions left_table \<and>
      (\<forall>p\<in>set (py_range (t_partitions left_table)).
         sample_entries (random_sample test_libs 42) (1 / 2) 0 (fs overlap_engine (env_for_partition left_table p)) []
           = Some (Inr (fs s1 (env_for_partition T1 p))) \<and>
         fs s2 (env_for_partition T2 p) = fs s1 (env_for_partition T1 p))"
  by (rule C8_sample_seeded_twice)
     (simp_all add: left_table_def overlap_engine_def test_libs_roundtrip fresh_name_def
        valid_keys_def registry_key_ok_def valid_key_def max_key_size_def table_key_def
        env_for_partition_def db_get_def StoreType_IN_MEMORY_def meta_table_def)

text \<open>
  The claim as stated fails without a seed, which is the default of \<open>sample\<close>: the generator
  of each task then seeds itself anew, and two runs on the same one-entry table give
  a partition with the entry and a partition without it.
\<close>

theorem C8_counterexample: "sample_twice None = Some (Inr ([([73, 2], [73, 3])], []))"
  unfolding sample_twice_def left_table_def overlap_engine_def
  by (simp add: sample_def do_sample_def engine_eval ret_def)


text \<open>
  C1. With a left table of one partition holding \<open>2 \<mapsto> 3\<close> and a right table of two
  partitions holding \<open>2 \<mapsto> 9\<close>, the right side does not have more entries, it is saved
  again with one partition, and the retry calls \<open>union\<close>: the result of
  \<open>subtractByKey(left, right)\<close> holds the key 2, which is a key of the right table.
\<close>

theorem C1_subtract_retry_is_union: "subtract_scenario = Some (Inr [([73, 2], [73, 3])])"
  unfolding subtract_scenario_def left_table_def right_table_def overlap_engine_def
  by (simp add: subtractByKey.simps union.simps engine_eval ret_def)
end
